theory Spec2Isabelle
  imports Main "HOL-Library.Sublist"
begin

section \<open>Strings and numbers of the scripts\<close>

text \<open>
  Script strings are modelled as \<open>string\<close> (lists of 8-bit characters): the texts the
  claims are about are ASCII. A template literal renders an integer-valued number in
  decimal, with a leading minus sign when it is negative.
\<close>

definition digit :: "nat \<Rightarrow> char" where
  "digit d = ''0123456789'' ! d"

fun showNat :: "nat \<Rightarrow> string" where
  "showNat n = (if n < 10 then [digit n] else showNat (n div 10) @ [digit (n mod 10)])"

declare showNat.simps [simp del]

definition showInt :: "int \<Rightarrow> string" where
  "showInt i = (if i < 0 then CHR ''-'' # showNat (nat (- i)) else showNat (nat i))"

text \<open>\<open>s.split(c)\<close> for a one-character separator, and \<open>pop()\<close> on its result.\<close>

fun splitOn :: "char \<Rightarrow> string \<Rightarrow> string list" where
  "splitOn c [] = [[]]"
| "splitOn c (x # xs) =
     (if x = c then [] # splitOn c xs
      else (case splitOn c xs of [] \<Rightarrow> [[x]] | w # ws \<Rightarrow> (x # w) # ws))"

definition pop :: "'a list \<Rightarrow> 'a option" where
  "pop xs = (if xs = [] then None else Some (last xs))"

section \<open>Data model (types.ts, constants.ts)\<close>

datatype ExamLevel = AMC8 | AMC10 | AMC12

datatype ProblemSource = AOPS | MOCK | AI_GENERATED

datatype ChatRole = User | Model

record ChatMessage =
  role :: ChatRole
  msgText :: string

record Problem =
  problemId :: string
  source :: ProblemSource
  originalUrl :: "string option"
  questionHtml :: string
  images :: "string list"
  options :: "string list"
  correctOption :: string
  solutionHtml :: string
  difficulty :: int
  userAnswer :: "string option"
  isCorrect :: "bool option"
  hints :: "string list"
  solutionChat :: "ChatMessage list"
  topic :: "string option"

definition AMC8_START_YEAR :: int where "AMC8_START_YEAR = 1985"
definition AMC10_12_START_YEAR :: int where "AMC10_12_START_YEAR = 2000"
definition CURRENT_YEAR :: int where "CURRENT_YEAR = 2025"

section \<open>Catalog Generator (generateFullCatalogQueue)\<close>

record PrefetchTask =
  url :: string
  taskId :: string
  level :: ExamLevel
  year :: int
  examType :: string

text \<open>
  \<open>addTask\<close> pushes one task for each \<open>i\<close> from 1 to \<open>count\<close>; the queue is the
  concatenation of all pushes in program order.
\<close>

definition mkTask :: "int \<Rightarrow> ExamLevel \<Rightarrow> string \<Rightarrow> string \<Rightarrow> string \<Rightarrow> int \<Rightarrow> PrefetchTask" where
  "mkTask y lvl wikiName display idSuffix i =
     \<lparr> url = ''https://artofproblemsolving.com/wiki/index.php?title='' @ showInt y @ ''_''
               @ wikiName @ ''_Problems/Problem_'' @ showInt i,
       taskId = showInt y @ ''-'' @ idSuffix @ ''-'' @ showInt i,
       level = lvl,
       year = y,
       examType = display \<rparr>"

definition addTask :: "int \<Rightarrow> ExamLevel \<Rightarrow> string \<Rightarrow> string \<Rightarrow> string \<Rightarrow> int \<Rightarrow> PrefetchTask list" where
  "addTask y lvl wikiName display idSuffix count =
     map (mkTask y lvl wikiName display idSuffix) [1..count]"

text \<open>A loop \<open>for (y = hi; y >= lo; y--)\<close> whose body pushes \<open>body y\<close>.\<close>

definition yearsDown :: "int \<Rightarrow> int \<Rightarrow> (int \<Rightarrow> 'a list) \<Rightarrow> 'a list" where
  "yearsDown hi lo body = concat (map body (rev [lo..hi]))"

definition amc8Tasks :: "int \<Rightarrow> PrefetchTask list" where
  "amc8Tasks y =
     (let isAjhsme = (y \<le> 1998);
          name = (if isAjhsme then ''AJHSME'' else ''AMC_8'');
          display = (if isAjhsme then ''AJHSME'' else ''AMC 8'')
      in addTask y AMC8 name display ''amc8'' 25)"

definition amc10Tasks :: "int \<Rightarrow> PrefetchTask list" where
  "amc10Tasks y =
     (if y = 2000 \<or> y = 2001 then addTask y AMC10 ''AMC_10'' ''AMC 10'' ''amc10'' 25
      else addTask y AMC10 ''AMC_10A'' ''AMC 10A'' ''amc10a'' 25
         @ addTask y AMC10 ''AMC_10B'' ''AMC 10B'' ''amc10b'' 25)"

definition amc12Tasks :: "int \<Rightarrow> PrefetchTask list" where
  "amc12Tasks y =
     (if y = 2000 \<or> y = 2001 then addTask y AMC12 ''AMC_12'' ''AMC 12'' ''amc12'' 25
      else addTask y AMC12 ''AMC_12A'' ''AMC 12A'' ''amc12a'' 25
         @ addTask y AMC12 ''AMC_12B'' ''AMC 12B'' ''amc12b'' 25)"

definition generateFullCatalogQueue :: "PrefetchTask list" where
  "generateFullCatalogQueue =
     yearsDown CURRENT_YEAR AMC8_START_YEAR amc8Tasks
     @ yearsDown CURRENT_YEAR AMC10_12_START_YEAR amc10Tasks
     @ yearsDown CURRENT_YEAR AMC10_12_START_YEAR amc12Tasks"

text \<open>
  The harvester's log line reads a task's problem number back from its id as
  \<open>task.id.split('-').pop()\<close>.
\<close>

definition problemNumber :: "PrefetchTask \<Rightarrow> string option" where
  "problemNumber t = pop (splitOn CHR ''-'' (taskId t))"

text \<open>
  The tasks of one (exam family, year, variant) combination, in queue order, and the
  variants the queue holds for a family and a year.
\<close>

definition tasksOf :: "ExamLevel \<Rightarrow> int \<Rightarrow> string \<Rightarrow> PrefetchTask list" where
  "tasksOf l y d =
     filter (\<lambda>u. level u = l \<and> year u = y \<and> examType u = d) generateFullCatalogQueue"

definition variantsOf :: "ExamLevel \<Rightarrow> int \<Rightarrow> string set" where
  "variantsOf l y = examType ` {t \<in> set generateFullCatalogQueue. level t = l \<and> year t = y}"

section \<open>Batch Harvester (processPrefetchQueue)\<close>

text \<open>
  The harvester is modelled with its effects made explicit. The Assembler call of loop
  iteration \<open>i\<close> is a parameter: it returns a Problem, returns null (\<open>None\<close>) or raises
  (\<open>Inl\<close> of the error message). The callback \<open>onProgress\<close> is a parameter too: a call of
  it in iteration \<open>i\<close> returns (\<open>None\<close>) or throws (\<open>Some\<close> of the error message). The shared
  stop flag is read once per iteration, before the task: \<open>stop i\<close> is the value
  \<open>stopSignal.stop\<close> has when iteration \<open>i\<close> reads it; whatever happens to the flag between
  two reads is visible only through the next read. Every call of \<open>onProgress\<close> is recorded,
  in order, with the Assembler calls, the console output and the pacing delays. The
  function returns nothing: its counters are seen in the statistics it hands to
  \<open>onProgress\<close>; the run records their last values as well, and the error with which the
  promise of the function is rejected, if it is.
\<close>

record PrefetchStats =
  total :: nat
  success :: nat
  failed :: nat
  currentYear :: int
  currentExam :: string

datatype Effect =
    OnProgress PrefetchStats string "Problem option"
  | FetchAoPS string string ExamLevel
  | ConsoleError string
  | Wait nat

type_synonym Assembler = "nat \<Rightarrow> string \<Rightarrow> string \<Rightarrow> ExamLevel \<Rightarrow> string + Problem option"

type_synonym Callback = "nat \<Rightarrow> PrefetchStats \<Rightarrow> string \<Rightarrow> Problem option \<Rightarrow> string option"

definition snapshot :: "PrefetchTask list \<Rightarrow> nat \<Rightarrow> nat \<Rightarrow> PrefetchTask \<Rightarrow> PrefetchStats" where
  "snapshot queue s f task =
     \<lparr> total = length queue, success = s, failed = f,
       currentYear = year task, currentExam = examType task \<rparr>"

definition fetchingLog :: "nat \<Rightarrow> PrefetchTask list \<Rightarrow> PrefetchTask \<Rightarrow> string" where
  "fetchingLog i queue task =
     ''Fetching ['' @ showInt (int i + 1) @ ''/'' @ showInt (int (length queue)) @ '']: ''
       @ examType task @ '' #''
       @ (case problemNumber task of Some n \<Rightarrow> n | None \<Rightarrow> ''undefined'') @ ''...''"

text \<open>
  The \<open>try\<close> block of iteration \<open>i\<close>: the counters, the effects, and the error thrown in the
  block, if any, by the Assembler or by the callback. A counter is incremented before the
  callback is called.
\<close>

definition tryBlock ::
  "PrefetchTask list \<Rightarrow> Assembler \<Rightarrow> Callback \<Rightarrow> nat \<Rightarrow> nat \<times> nat
     \<Rightarrow> (nat \<times> nat) \<times> Effect list \<times> string option" where
  "tryBlock queue asm cb i sf =
     (let s = fst sf; f = snd sf; task = queue ! i;
          call = FetchAoPS (url task) (taskId task) (level task)
      in case asm i (url task) (taskId task) (level task) of
           Inl msg \<Rightarrow> ((s, f), [call], Some msg)
         | Inr (Some problem) \<Rightarrow>
             (let stats = snapshot queue (s + 1) f task; line = ''SUCCESS: '' @ taskId task
              in ((s + 1, f), [call, OnProgress stats line (Some problem)],
                  cb i stats line (Some problem)))
         | Inr None \<Rightarrow>
             (let stats = snapshot queue s (f + 1) task;
                  line = ''FAILED: '' @ taskId task @ '' (No data returned)''
              in ((s, f + 1), [call, OnProgress stats line None], cb i stats line None)))"

text \<open>
  The \<open>catch\<close> block, entered with the error thrown in the \<open>try\<close> block: the counters, the
  effects, and the error thrown by the callback, which nothing catches.
\<close>

definition catchBlock ::
  "PrefetchTask list \<Rightarrow> Callback \<Rightarrow> nat \<Rightarrow> nat \<times> nat \<Rightarrow> string
     \<Rightarrow> (nat \<times> nat) \<times> Effect list \<times> string option" where
  "catchBlock queue cb i sf msg =
     (let s = fst sf; f = snd sf + 1; task = queue ! i;
          stats = snapshot queue s f task; line = ''ERROR: '' @ taskId task @ '' - '' @ msg
      in ((s, f), [ConsoleError msg, OnProgress stats line None], cb i stats line None))"

text \<open>
  One loop iteration past the stop check: the counters, the effects it adds, and the error
  that ends the run, if one is thrown outside the \<open>try\<close> block.
\<close>

definition harvestTask ::
  "PrefetchTask list \<Rightarrow> Assembler \<Rightarrow> Callback \<Rightarrow> nat \<Rightarrow> nat \<times> nat
     \<Rightarrow> (nat \<times> nat) \<times> Effect list \<times> string option" where
  "harvestTask queue asm cb i sf =
     (let task = queue ! i; stats = snapshot queue (fst sf) (snd sf) task;
          line = fetchingLog i queue task
      in case cb i stats line None of
           Some err \<Rightarrow> (sf, [OnProgress stats line None], Some err)
         | None \<Rightarrow>
             (case tryBlock queue asm cb i sf of
                (sf1, es1, thrown) \<Rightarrow>
                  (case thrown of
                     None \<Rightarrow> (sf1, OnProgress stats line None # es1 @ [Wait 800], None)
                   | Some msg \<Rightarrow>
                       (case catchBlock queue cb i sf1 msg of
                          (sf2, es2, uncaught) \<Rightarrow>
                            (case uncaught of
                               None \<Rightarrow> (sf2, OnProgress stats line None # es1 @ es2 @ [Wait 800], None)
                             | Some err \<Rightarrow> (sf2, OnProgress stats line None # es1 @ es2, Some err))))))"

function harvestLoop ::
  "PrefetchTask list \<Rightarrow> Assembler \<Rightarrow> Callback \<Rightarrow> (nat \<Rightarrow> bool) \<Rightarrow> nat \<Rightarrow> nat \<times> nat \<Rightarrow> Effect list
     \<Rightarrow> (nat \<times> nat) \<times> Effect list \<times> string option" where
  "harvestLoop queue asm cb stop i sf tr =
     (if i < length queue then
        (if stop i then (sf, tr, None)
         else (case harvestTask queue asm cb i sf of
                 (sf', es, uncaught) \<Rightarrow>
                   (case uncaught of
                      None \<Rightarrow> harvestLoop queue asm cb stop (i + 1) sf' (tr @ es)
                    | Some err \<Rightarrow> (sf', tr @ es, Some err))))
      else (sf, tr, None))"
  by pat_completeness auto
termination
  by (relation "measure (\<lambda>(queue, asm, cb, stop, i, sf, tr). length queue - i)") auto

declare harvestLoop.simps [simp del]

record HarvestRun =
  finalSuccess :: nat
  finalFailed :: nat
  effects :: "Effect list"
  rejected :: "string option"

definition processPrefetchQueue ::
  "PrefetchTask list \<Rightarrow> Assembler \<Rightarrow> Callback \<Rightarrow> (nat \<Rightarrow> bool) \<Rightarrow> HarvestRun" where
  "processPrefetchQueue queue asm cb stop =
     (case harvestLoop queue asm cb stop 0 (0, 0) [] of
        ((s, f), tr, uncaught) \<Rightarrow>
          \<lparr> finalSuccess = s, finalFailed = f, effects = tr, rejected = uncaught \<rparr>)"

text \<open>Observations on a run, used to state its properties.\<close>

fun isProgress :: "Effect \<Rightarrow> bool" where
  "isProgress (OnProgress _ _ _) = True"
| "isProgress _ = False"

fun isFetch :: "Effect \<Rightarrow> bool" where
  "isFetch (FetchAoPS _ _ _) = True"
| "isFetch _ = False"

text \<open>The statistics handed to \<open>onProgress\<close>, call by call.\<close>

fun statsOf :: "Effect \<Rightarrow> PrefetchStats list" where
  "statsOf (OnProgress stats line result) = [stats]"
| "statsOf _ = []"

definition progressStats :: "Effect list \<Rightarrow> PrefetchStats list" where
  "progressStats es = concat (map statsOf es)"

definition outcomeOf :: "PrefetchTask list \<Rightarrow> Assembler \<Rightarrow> nat \<Rightarrow> string + Problem option" where
  "outcomeOf queue asm i = asm i (url (queue ! i)) (taskId (queue ! i)) (level (queue ! i))"

fun isSuccess :: "string + Problem option \<Rightarrow> bool" where
  "isSuccess (Inr (Some _)) = True"
| "isSuccess _ = False"

text \<open>
  The number of tasks among the first \<open>j\<close> for which the Assembler returns a Problem, and
  of those for which it returns null or raises.
\<close>

definition successCount :: "PrefetchTask list \<Rightarrow> Assembler \<Rightarrow> nat \<Rightarrow> nat" where
  "successCount queue asm j = length [i \<leftarrow> [0..<j]. isSuccess (outcomeOf queue asm i)]"

definition failureCount :: "PrefetchTask list \<Rightarrow> Assembler \<Rightarrow> nat \<Rightarrow> nat" where
  "failureCount queue asm j = length [i \<leftarrow> [0..<j]. \<not> isSuccess (outcomeOf queue asm i)]"

definition processed :: "PrefetchTask list \<Rightarrow> (nat \<Rightarrow> bool) \<Rightarrow> nat" where
  "processed queue stop = length (takeWhile (\<lambda>i. \<not> stop i) [0..<length queue])"

definition callOf :: "PrefetchTask list \<Rightarrow> nat \<Rightarrow> Effect" where
  "callOf queue j = FetchAoPS (url (queue ! j)) (taskId (queue ! j)) (level (queue ! j))"

definition stopIndex :: "(nat \<Rightarrow> bool) \<Rightarrow> nat \<Rightarrow> nat \<Rightarrow> nat" where
  "stopIndex stop n i = i + length (takeWhile (\<lambda>j. \<not> stop j) [i..<n])"

definition isCall :: "Effect \<Rightarrow> bool" where
  "isCall e = (isProgress e \<or> isFetch e)"

text \<open>A five-task queue whose third task makes the Assembler raise.\<close>

definition demoProblem :: "string \<Rightarrow> string \<Rightarrow> Problem" where
  "demoProblem u i =
     \<lparr> problemId = i, source = AOPS, originalUrl = Some u, questionHtml = ''<div><p>Q</p></div>'',
       images = [], options = [''A'', ''B'', ''C'', ''D'', ''E''], correctOption = ''C'',
       solutionHtml = ''<div><p>S</p></div>'', difficulty = 5, userAnswer = None, isCorrect = None,
       hints = [], solutionChat = [], topic = None \<rparr>"

definition demoQueue :: "PrefetchTask list" where
  "demoQueue = addTask 2025 AMC8 ''AMC_8'' ''AMC 8'' ''amc8'' 5"

definition thirdRaises :: Assembler where
  "thirdRaises i u d l = (if i = 2 then Inl ''boom'' else Inr (Some (demoProblem u d)))"

text \<open>
  Two callbacks: one that returns at every call, and one that throws whenever it is handed
  a Problem. A two-task queue on which the Assembler returns a Problem each time.
\<close>

definition returns :: Callback where
  "returns i stats line result = None"

definition throwsOnResult :: Callback where
  "throwsOnResult i stats line result = (if result = None then None else Some ''cannot render'')"

definition twoTasks :: "PrefetchTask list" where
  "twoTasks = addTask 2025 AMC8 ''AMC_8'' ''AMC 8'' ''amc8'' 2"

definition alwaysSucceeds :: Assembler where
  "alwaysSucceeds i u d l = Inr (Some (demoProblem u d))"

section \<open>Proxy Fetcher (fetchViaProxy)\<close>

text \<open>
  The network is a parameter. A request to the primary proxy (corsproxy.io, plain-text
  passthrough) either fails (\<open>fetch\<close> or \<open>res.text()\<close> rejects) or yields a response with
  its \<open>ok\<close> flag, its status and its body. A request to the backup proxy (allorigins,
  JSON-wrapped) either fails or yields a response whose body does not parse as JSON
  (\<open>res.json()\<close> rejects) or parses to an object, of which the code reads the field
  \<open>contents\<close>: \<open>None\<close> when the field is missing or null, the string otherwise. A raised
  \<open>Error(m)\<close> is the value \<open>Inl m\<close>; console output is returned beside the result.
\<close>

datatype HttpResponse = NetworkFailure string | HttpResponse bool int string

datatype JsonBody = InvalidJson string | Contents "string option"

datatype BackupResponse = BackupFailure string | BackupResponse bool int JsonBody

definition primaryAttempt :: "HttpResponse \<Rightarrow> string + string" where
  "primaryAttempt r =
     (case r of
        NetworkFailure m \<Rightarrow> Inl m
      | HttpResponse ok status body \<Rightarrow>
          if \<not> ok then Inl (''Primary Proxy Error: '' @ showInt status)
          else if body = [] \<or> length body < 100 then Inl ''Empty contents''
          else Inr body)"

definition backupAttempt :: "BackupResponse \<Rightarrow> string + string" where
  "backupAttempt r =
     (case r of
        BackupFailure m \<Rightarrow> Inl m
      | BackupResponse ok status json \<Rightarrow>
          if \<not> ok then Inl (''Backup Proxy Error: '' @ showInt status)
          else (case json of
                  InvalidJson m \<Rightarrow> Inl m
                | Contents None \<Rightarrow> Inl ''Empty contents from backup''
                | Contents (Some c) \<Rightarrow>
                    if c = [] then Inl ''Empty contents from backup'' else Inr c))"

definition fetchViaProxy ::
  "(string \<Rightarrow> HttpResponse) \<Rightarrow> (string \<Rightarrow> BackupResponse) \<Rightarrow> string \<Rightarrow> int
     \<Rightarrow> (string + string) \<times> string list" where
  "fetchViaProxy primary backup target retries =
     (case primaryAttempt (primary target) of
        Inr text \<Rightarrow> (Inr text, [])
      | Inl e \<Rightarrow>
          if retries > 0 then
            (case backupAttempt (backup target) of
               Inr contents \<Rightarrow> (Inr contents, [])
             | Inl e2 \<Rightarrow> (Inl e2, [''Both proxies failed'']))
          else (Inl e, []))"

definition demoUrl :: string where
  "demoUrl = ''https://artofproblemsolving.com/wiki/index.php?title=2025_AMC_8_Problems/Problem_1''"

section \<open>Regular expressions and the Answer Extractor\<close>

text \<open>
  The regular expressions of the scripts use only single-character items (a literal, a
  class, \<open>\s\<close>), each taken once, optionally (\<open>?\<close>), any number of times (\<open>*\<close>) or at least
  once (\<open>+\<close>), at most one capture group around a single class, and the end anchor \<open>$\<close>. The
  matcher below is the backtracking matcher of the script engine on this fragment:
  quantifiers are greedy and give back on failure. With the flag \<open>i\<close> two characters match
  when their upper-case forms agree; on 8-bit characters only the letters a-z have an
  upper-case form among the characters compared here.
\<close>

definition toUpperChar :: "char \<Rightarrow> char" where
  "toUpperChar c =
     (case map_of (zip ''abcdefghijklmnopqrstuvwxyz'' ''ABCDEFGHIJKLMNOPQRSTUVWXYZ'') c of
        Some u \<Rightarrow> u | None \<Rightarrow> c)"

definition isSpace :: "char \<Rightarrow> bool" where
  "isSpace c = (c \<in> set [CHR 0x09, CHR 0x0A, CHR 0x0B, CHR 0x0C, CHR 0x0D, CHR 0x20, CHR 0xA0])"

datatype cls = Chars string | NotChars string | Space

datatype atom = One cls | Opt cls | Star cls | Plus cls | Cap cls | End

type_synonym regex = "atom list"

definition inChars :: "bool \<Rightarrow> string \<Rightarrow> char \<Rightarrow> bool" where
  "inChars ic cs x = (if ic then toUpperChar x \<in> set (map toUpperChar cs) else x \<in> set cs)"

fun clsMatch :: "bool \<Rightarrow> cls \<Rightarrow> char \<Rightarrow> bool" where
  "clsMatch ic (Chars cs) x = inChars ic cs x"
| "clsMatch ic (NotChars cs) x = (\<not> inChars ic cs x)"
| "clsMatch ic Space x = isSpace x"

text \<open>
  \<open>matchHere ic rx s cap\<close> matches \<open>rx\<close> at the start of \<open>s\<close>: the rest of the text after
  the match and the text of the capture group, or \<open>None\<close>.
\<close>

fun matchHere :: "bool \<Rightarrow> regex \<Rightarrow> string \<Rightarrow> string option \<Rightarrow> (string \<times> string option) option" where
  "matchHere ic [] s cap = Some (s, cap)"
| "matchHere ic (One c # r) [] cap = None"
| "matchHere ic (One c # r) (x # xs) cap =
     (if clsMatch ic c x then matchHere ic r xs cap else None)"
| "matchHere ic (Cap c # r) [] cap = None"
| "matchHere ic (Cap c # r) (x # xs) cap =
     (if clsMatch ic c x then matchHere ic r xs (Some [x]) else None)"
| "matchHere ic (Opt c # r) [] cap = matchHere ic r [] cap"
| "matchHere ic (Opt c # r) (x # xs) cap =
     (if clsMatch ic c x then
        (case matchHere ic r xs cap of Some m \<Rightarrow> Some m | None \<Rightarrow> matchHere ic r (x # xs) cap)
      else matchHere ic r (x # xs) cap)"
| "matchHere ic (Star c # r) [] cap = matchHere ic r [] cap"
| "matchHere ic (Star c # r) (x # xs) cap =
     (if clsMatch ic c x then
        (case matchHere ic (Star c # r) xs cap of
           Some m \<Rightarrow> Some m | None \<Rightarrow> matchHere ic r (x # xs) cap)
      else matchHere ic r (x # xs) cap)"
| "matchHere ic (Plus c # r) [] cap = None"
| "matchHere ic (Plus c # r) (x # xs) cap =
     (if clsMatch ic c x then matchHere ic (Star c # r) xs cap else None)"
| "matchHere ic (End # r) s cap = (if s = [] then matchHere ic r s cap else None)"

text \<open>\<open>s.match(rx)\<close> for a regular expression without the flag \<open>g\<close>: the leftmost match.\<close>

fun search :: "bool \<Rightarrow> regex \<Rightarrow> string \<Rightarrow> string option option" where
  "search ic rx [] = map_option snd (matchHere ic rx [] None)"
| "search ic rx (x # xs) =
     (case matchHere ic rx (x # xs) None of
        Some m \<Rightarrow> Some (snd m)
      | None \<Rightarrow> search ic rx xs)"

text \<open>
  \<open>m[1]\<close> of a match: the text of the group; a group that did not take part is
  \<open>undefined\<close>, which the callers treat like the empty string.
\<close>

definition group1 :: "string option \<Rightarrow> string" where
  "group1 cap = (case cap of Some g \<Rightarrow> g | None \<Rightarrow> [])"

text \<open>
  \<open>s.replace(rx, rep)\<close> with the flag \<open>g\<close>: every match, left to right, is replaced; after
  an empty match the scan moves on by one character, which is kept.
\<close>

function replaceAll :: "bool \<Rightarrow> regex \<Rightarrow> string \<Rightarrow> string \<Rightarrow> string" where
  "replaceAll ic rx rep [] = (case matchHere ic rx [] None of Some m \<Rightarrow> rep | None \<Rightarrow> [])"
| "replaceAll ic rx rep (x # xs) =
     (case matchHere ic rx (x # xs) None of
        None \<Rightarrow> x # replaceAll ic rx rep xs
      | Some m \<Rightarrow>
          if length (fst m) < length (x # xs) then rep @ replaceAll ic rx rep (fst m)
          else rep @ x # replaceAll ic rx rep xs)"
  by pat_completeness auto
termination
  by (relation "measure (\<lambda>(ic, rx, rep, s). length s)") auto

definition lit :: "string \<Rightarrow> regex" where
  "lit s = map (\<lambda>c. One (Chars [c])) s"

definition boxedTextbfRx :: regex where
  "boxedTextbfRx =
     lit (CHR 0x5C # ''boxed'') @ [Star Space, One (Chars ''{''), Star Space, Opt (Chars [CHR 0x5C])]
     @ lit ''textbf'' @ [Star Space, One (Chars ''{''), Star Space, Opt (Chars ''(''), Star Space,
        Cap (Chars ''ABCDE''), Star Space, Opt (Chars '')''), Star Space, One (Chars ''}''),
        Star Space, One (Chars ''}'')]"

definition boxedRx :: regex where
  "boxedRx =
     lit (CHR 0x5C # ''boxed'') @ [Star Space, One (Chars ''{''), Star Space, Opt (Chars ''(''),
        Star Space, Cap (Chars ''ABCDE''), Star Space, Opt (Chars '')''), Star Space,
        One (Chars ''}'')]"

definition answerIsRx :: regex where
  "answerIsRx =
     lit ''answer is'' @ [Star Space, Opt (Chars ''(''), Cap (Chars ''ABCDE''), Opt (Chars '')'')]"

definition tagRx :: regex where
  "tagRx = [One (Chars ''<''), Plus (NotChars ''>''), One (Chars ''>'')]"

definition boxedMatch :: "string \<Rightarrow> string option option" where
  "boxedMatch html =
     (case search True boxedTextbfRx html of
        Some m \<Rightarrow> Some m
      | None \<Rightarrow> search True boxedRx html)"

definition regexAnswer :: "string \<Rightarrow> string" where
  "regexAnswer html =
     (case boxedMatch html of
        Some m \<Rightarrow> group1 m
      | None \<Rightarrow>
          (let cleanSolText = replaceAll False tagRx [] html
           in case search True answerIsRx cleanSolText of
                Some m \<Rightarrow> group1 m
              | None \<Rightarrow> []))"

text \<open>
  The AI fallback. The model call is a parameter: \<open>None\<close> when no API key is configured
  (\<open>getAiClient\<close> raises, outside the \<open>try\<close>), otherwise a function from the prompt to the
  reply: the call fails, or it answers with a text that may be undefined.
\<close>

datatype AiReply = AiError | AiText "string option"

type_synonym AiClient = "(string \<Rightarrow> AiReply) option"

definition trim :: "string \<Rightarrow> string" where
  "trim s = rev (dropWhile isSpace (rev (dropWhile isSpace s)))"

definition toUpperCase :: "string \<Rightarrow> string" where
  "toUpperCase s = map toUpperChar s"

definition answerPrompt :: "string \<Rightarrow> string" where
  "answerPrompt solutionText =
     ''Identify the final answer letter (A, B, C, D, or E) from this math solution text.''
     @ [CHR 0x0A] @ replicate 12 CHR '' '' @ [CHR 0x0A] @ replicate 12 CHR '' ''
     @ ''Solution: '' @ [CHR 0x22] @ take 1000 solutionText @ ''...'' @ [CHR 0x22]
     @ [CHR 0x0A] @ replicate 12 CHR '' '' @ [CHR 0x0A] @ replicate 12 CHR '' ''
     @ ''Return ONLY the letter. If not found, return X.''"

definition extractCorrectOptionWithAI :: "AiClient \<Rightarrow> string \<Rightarrow> string + string" where
  "extractCorrectOptionWithAI ai solutionText =
     (case ai of
        None \<Rightarrow> Inl ''API Key not found in environment''
      | Some generateContent \<Rightarrow>
          (case generateContent (answerPrompt solutionText) of
             AiError \<Rightarrow> Inr []
           | AiText None \<Rightarrow> Inr []
           | AiText (Some t) \<Rightarrow>
               (let text = replaceAll False [One (NotChars ''ABCDE'')] [] (toUpperCase (trim t))
                in Inr (if length text > 0 then [hd text] else []))))"

text \<open>Lines 219 to 235 of \<open>fetchAoPSProblem\<close>: the patterns first, the AI call when they find nothing.\<close>

definition extractCorrectOption :: "AiClient \<Rightarrow> string \<Rightarrow> string + string" where
  "extractCorrectOption ai html =
     (let correctOption = regexAnswer html
      in if correctOption = [] then extractCorrectOptionWithAI ai html else Inr correctOption)"

definition boxedTextbf :: "char \<Rightarrow> string" where
  "boxedTextbf X = [CHR 0x5C] @ ''boxed{'' @ [CHR 0x5C] @ ''textbf{('' @ [X] @ '')}}''"

definition boxedPlain :: "char \<Rightarrow> string" where
  "boxedPlain X = [CHR 0x5C] @ ''boxed{('' @ [X] @ '')}''"

definition conflictingSolution :: string where
  "conflictingSolution =
     ''<div><p>Some say the answer is (B). We get '' @ boxedTextbf CHR ''C'' @ ''.</p></div>''"

section \<open>Parsed documents\<close>

text \<open>
  A parsed document is a tree of element and text nodes under its root element; an element
  has its tag name in lower case (as the parser of the browser stores it), its attributes
  in order, and its children. A document also has a mode: a text that does not begin with
  a document type declaration is parsed into a document in quirks mode, and in quirks mode
  class and id selectors match without regard to the case of ASCII letters. The parser
  itself (\<open>DOMParser.parseFromString\<close>) is a parameter of the functions that call it.
\<close>

datatype node = Element string "(string \<times> string) list" "node list" | TextNode string

record Document =
  quirksMode :: bool
  documentElement :: node

type_synonym Parser = "string \<Rightarrow> Document"

fun isElement :: "node \<Rightarrow> bool" where
  "isElement (Element t a cs) = True"
| "isElement (TextNode s) = False"

fun localName :: "node \<Rightarrow> string" where
  "localName (Element t a cs) = t"
| "localName (TextNode s) = []"

fun attributes :: "node \<Rightarrow> (string \<times> string) list" where
  "attributes (Element t a cs) = a"
| "attributes (TextNode s) = []"

fun childNodes :: "node \<Rightarrow> node list" where
  "childNodes (Element t a cs) = cs"
| "childNodes (TextNode s) = []"

definition tagName :: "node \<Rightarrow> string" where
  "tagName n = toUpperCase (localName n)"

definition getAttribute :: "node \<Rightarrow> string \<Rightarrow> string option" where
  "getAttribute n k = map_of (attributes n) k"

text \<open>\<open>el.id\<close>: the attribute, or the empty string.\<close>

definition elementId :: "node \<Rightarrow> string" where
  "elementId n = (case getAttribute n ''id'' of Some v \<Rightarrow> v | None \<Rightarrow> [])"

fun textContent :: "node \<Rightarrow> string" where
  "textContent (TextNode s) = s"
| "textContent (Element t a cs) = concat (map textContent cs)"

text \<open>The descendants of a node in document order.\<close>

fun descendants :: "node \<Rightarrow> node list" where
  "descendants (TextNode s) = []"
| "descendants (Element t a cs) = concat (map (\<lambda>c. c # descendants c) cs)"

definition isAsciiSpace :: "char \<Rightarrow> bool" where
  "isAsciiSpace c = (c \<in> set [CHR 0x09, CHR 0x0A, CHR 0x0C, CHR 0x0D, CHR 0x20])"

fun tokens :: "string \<Rightarrow> string list" where
  "tokens [] = []"
| "tokens (x # xs) =
     (if isAsciiSpace x then tokens xs
      else (case tokens xs of
              [] \<Rightarrow> [[x]]
            | w # ws \<Rightarrow> (case xs of [] \<Rightarrow> [x] # w # ws
                         | y # ys \<Rightarrow> if isAsciiSpace y then [x] # w # ws else (x # w) # ws)))"

text \<open>
  The class selector \<open>.c\<close> and the id selector \<open>#i\<close>, in a document of the given mode: in
  quirks mode the names are compared without regard to the case of ASCII letters.
\<close>

definition sameName :: "bool \<Rightarrow> string \<Rightarrow> string \<Rightarrow> bool" where
  "sameName quirks a b = (if quirks then toUpperCase a = toUpperCase b else a = b)"

definition hasClass :: "bool \<Rightarrow> string \<Rightarrow> node \<Rightarrow> bool" where
  "hasClass quirks c n =
     (isElement n
      \<and> (case getAttribute n ''class'' of
            Some v \<Rightarrow> list_ex (sameName quirks c) (tokens v)
          | None \<Rightarrow> False))"

definition hasId :: "bool \<Rightarrow> string \<Rightarrow> node \<Rightarrow> bool" where
  "hasId quirks i n =
     (isElement n
      \<and> (case getAttribute n ''id'' of Some v \<Rightarrow> sameName quirks i v | None \<Rightarrow> False))"

definition querySelectorAll :: "(node \<Rightarrow> bool) \<Rightarrow> node \<Rightarrow> node list" where
  "querySelectorAll sel n = filter sel (descendants n)"

definition querySelector :: "(node \<Rightarrow> bool) \<Rightarrow> node \<Rightarrow> node option" where
  "querySelector sel n = (case querySelectorAll sel n of [] \<Rightarrow> None | e # es \<Rightarrow> Some e)"

text \<open>
  \<open>doc.querySelector(sel)\<close> on the document: the first match in document order, the root
  element included.
\<close>

definition querySelectorDocument :: "(node \<Rightarrow> bool) \<Rightarrow> Document \<Rightarrow> node option" where
  "querySelectorDocument sel doc =
     (case filter sel (documentElement doc # descendants (documentElement doc)) of
        [] \<Rightarrow> None
      | e # es \<Rightarrow> Some e)"

text \<open>
  The child nodes of \<open>doc.body\<close>, the first child of the root element that is a \<open>body\<close> or a
  \<open>frameset\<close> element. The parser gives every document whose text begins with the start
  tag of a \<open>div\<close> a body, so the list is empty only when the body is.
\<close>

definition isBody :: "node \<Rightarrow> bool" where
  "isBody n = (localName n = ''body'' \<or> localName n = ''frameset'')"

definition bodyNodes :: "Document \<Rightarrow> node list" where
  "bodyNodes doc =
     (case find isBody (childNodes (documentElement doc)) of
        Some b \<Rightarrow> childNodes b
      | None \<Rightarrow> [])"

text \<open>\<open>s.includes(t)\<close> and \<open>s.startsWith(t)\<close>.\<close>

fun strIncludes :: "string \<Rightarrow> string \<Rightarrow> bool" where
  "strIncludes [] t = (t = [])"
| "strIncludes (x # xs) t = (prefix t (x # xs) \<or> strIncludes xs t)"

definition startsWith :: "string \<Rightarrow> string \<Rightarrow> bool" where
  "startsWith s t = prefix t s"

text \<open>
  Serialisation (\<open>outerHTML\<close>, \<open>innerHTML\<close>), after the fragment serialisation algorithm of
  the HTML standard for element and text nodes: the elements that serialise as void have
  no end tag and no content; in text and in attribute values \<open>&\<close>, the no-break space, \<open><\<close>
  and \<open>>\<close> are escaped, and the double quote too in attribute values; the text children of
  a raw text element are written as they are.
\<close>

definition voidElements :: "string list" where
  "voidElements = [''area'', ''base'', ''br'', ''col'', ''embed'', ''hr'', ''img'', ''input'',
     ''link'', ''meta'', ''source'', ''track'', ''wbr'',
     ''basefont'', ''bgsound'', ''frame'', ''keygen'', ''param'']"

definition rawTextElements :: "string list" where
  "rawTextElements = [''style'', ''script'', ''xmp'', ''iframe'', ''noembed'', ''noframes'',
     ''plaintext'']"

definition escapeChar :: "bool \<Rightarrow> char \<Rightarrow> string" where
  "escapeChar attributeMode c =
     (if c = CHR ''&'' then ''&amp;''
      else if c = CHR 0xA0 then ''&nbsp;''
      else if c = CHR ''<'' then ''&lt;''
      else if c = CHR ''>'' then ''&gt;''
      else if attributeMode \<and> c = CHR 0x22 then ''&quot;''
      else [c])"

definition escape :: "bool \<Rightarrow> string \<Rightarrow> string" where
  "escape attributeMode s = concat (map (escapeChar attributeMode) s)"

definition serializeAttribute :: "string \<times> string \<Rightarrow> string" where
  "serializeAttribute kv = '' '' @ fst kv @ ''='' @ [CHR 0x22] @ escape True (snd kv) @ [CHR 0x22]"

text \<open>
  \<open>serialize literal n\<close> is the markup of the node \<open>n\<close>, where \<open>literal\<close> says whether its
  parent is a raw text element.
\<close>

fun serialize :: "bool \<Rightarrow> node \<Rightarrow> string" where
  "serialize literal (TextNode s) = (if literal then s else escape False s)"
| "serialize literal (Element t a cs) =
     ''<'' @ t @ concat (map serializeAttribute a) @ ''>''
     @ (if t \<in> set voidElements then []
        else concat (map (serialize (t \<in> set rawTextElements)) cs) @ ''</'' @ t @ ''>'')"

text \<open>
  \<open>el.outerHTML\<close> of an element, and \<open>el.innerHTML\<close> of an element that is not a raw text
  element (here always \<open>body\<close>), given by its child nodes.
\<close>

definition outerHTML :: "node \<Rightarrow> string" where
  "outerHTML = serialize False"

definition innerHTML :: "node list \<Rightarrow> string" where
  "innerHTML cs = concat (map outerHTML cs)"

section \<open>Document Segmenter (the walk of fetchAoPSProblem)\<close>

text \<open>
  The walk visits the element siblings from the start position on
  (\<open>nextElementSibling\<close> skips text nodes). Its state is the mode and the two accumulators.
  The Solution test is made first; a heading that passes it never reaches the See-also
  test. The first argument is the mode of the document the siblings belong to, which the
  selector \<open>.mw-headline\<close> depends on.
\<close>

datatype Mode = Question | Solution | Done

definition headingId :: "bool \<Rightarrow> node \<Rightarrow> string" where
  "headingId quirks cur =
     (if elementId cur \<noteq> [] then elementId cur
      else (case querySelector (hasClass quirks ''mw-headline'') cur of
              Some h \<Rightarrow> elementId h
            | None \<Rightarrow> []))"

definition isSolutionHeading :: "bool \<Rightarrow> node \<Rightarrow> bool" where
  "isSolutionHeading quirks cur =
     (tagName cur = ''H2''
      \<and> (strIncludes (textContent cur) ''Solution'' \<or> strIncludes (headingId quirks cur) ''Solution''
         \<or> strIncludes (textContent cur) ''Video Solution''))"

definition indicatesSeeAlso :: "bool \<Rightarrow> node \<Rightarrow> bool" where
  "indicatesSeeAlso quirks cur =
     (tagName cur = ''H2''
      \<and> (strIncludes (textContent cur) ''See also'' \<or> strIncludes (textContent cur) ''See Also''
         \<or> strIncludes (headingId quirks cur) ''See_Also''))"

definition solutionSubHeading :: "node \<Rightarrow> string" where
  "solutionSubHeading cur =
     ''<h3 class='' @ [CHR 0x22]
     @ ''font-bold text-lg mt-6 mb-3 text-slate-800 border-b border-slate-200 pb-2''
     @ [CHR 0x22] @ ''>'' @ trim (textContent cur) @ ''</h3>''"

fun walk :: "bool \<Rightarrow> Mode \<Rightarrow> node list \<Rightarrow> string \<Rightarrow> string \<Rightarrow> Mode \<times> string \<times> string" where
  "walk quirks Done siblings q s = (Done, q, s)"
| "walk quirks mode [] q s = (mode, q, s)"
| "walk quirks mode (TextNode t # rest) q s = walk quirks mode rest q s"
| "walk quirks mode (Element t a cs # rest) q s =
     (let cur = Element t a cs in
      if isSolutionHeading quirks cur then walk quirks Solution rest q (s @ solutionSubHeading cur)
      else if indicatesSeeAlso quirks cur then (Done, q, s)
      else if mode = Question then walk quirks mode rest (q @ outerHTML cur) s
      else walk quirks mode rest q (s @ outerHTML cur))"

section \<open>HTML Normalizer (cleanAndRestoreLatex)\<close>

text \<open>
  Each of the three \<open>querySelectorAll(...).forEach\<close> loops rewrites the matching elements
  one by one, so it is a map over the tree. \<open>setAttribute\<close> replaces the value of an
  attribute in place, or adds the attribute at the end. The text that is parsed begins
  with the start tag of a \<open>div\<close>, not with a document type declaration, so the document is
  in quirks mode and has a body: the class selectors \<open>img.latex\<close> and \<open>img.latexcenter\<close>
  match without regard to the case of ASCII letters.
\<close>

fun mapTree :: "(node \<Rightarrow> node) \<Rightarrow> node \<Rightarrow> node" where
  "mapTree g (TextNode s) = TextNode s"
| "mapTree g (Element t a cs) = g (Element t a (map (mapTree g) cs))"

fun setAttr :: "(string \<times> string) list \<Rightarrow> string \<Rightarrow> string \<Rightarrow> (string \<times> string) list" where
  "setAttr [] k v = [(k, v)]"
| "setAttr (kv # r) k v = (if fst kv = k then (k, v) # r else kv # setAttr r k v)"

fun setAttribute :: "node \<Rightarrow> string \<Rightarrow> string \<Rightarrow> node" where
  "setAttribute (Element t a cs) k v = Element t (setAttr a k v) cs"
| "setAttribute (TextNode s) k v = TextNode s"

definition isLatexImage :: "node \<Rightarrow> bool" where
  "isLatexImage n =
     (localName n = ''img'' \<and> (hasClass True ''latex'' n \<or> hasClass True ''latexcenter'' n))"

definition restoreLatex :: "node \<Rightarrow> node" where
  "restoreLatex img =
     (if isLatexImage img then
        (case getAttribute img ''alt'' of
           Some alt \<Rightarrow>
             if alt \<noteq> [] \<and> \<not> startsWith (trim alt) ''[asy]''
             then Element ''span'' [] [TextNode ('' '' @ alt @ '' '')]
             else img
         | None \<Rightarrow> img)
      else img)"

definition absoluteSrc :: "string \<Rightarrow> string" where
  "absoluteSrc src =
     (if startsWith src ''//'' then ''https:'' @ src
      else if startsWith src ''/'' then ''https://artofproblemsolving.com'' @ src
      else src)"

definition absolutizeImage :: "node \<Rightarrow> node" where
  "absolutizeImage img =
     (if localName img = ''img'' then
        (case getAttribute img ''src'' of
           Some src \<Rightarrow> if src \<noteq> [] then setAttribute img ''src'' (absoluteSrc src) else img
         | None \<Rightarrow> img)
      else img)"

definition absolutizeLink :: "node \<Rightarrow> node" where
  "absolutizeLink a =
     (if localName a = ''a'' then
        (case getAttribute a ''href'' of
           Some href \<Rightarrow>
             if href \<noteq> [] \<and> startsWith href ''/''
             then setAttribute (setAttribute a ''href'' (''https://artofproblemsolving.com'' @ href))
                    ''target'' ''_blank''
             else a
         | None \<Rightarrow> a)
      else a)"

text \<open>The sources pushed to \<open>images\<close>: each once, in the order of their first occurrence.\<close>

definition pushUnique :: "string list \<Rightarrow> string \<Rightarrow> string list" where
  "pushUnique acc src = (if src \<in> set acc then acc else acc @ [src])"

definition imageSources :: "node list \<Rightarrow> string list" where
  "imageSources body =
     foldl pushUnique []
       (concat (map (\<lambda>n. case getAttribute n ''src'' of
                            Some src \<Rightarrow> if src \<noteq> [] then [src] else []
                          | None \<Rightarrow> [])
                 (filter (\<lambda>n. localName n = ''img'') (concat (map (\<lambda>c. c # descendants c) body)))))"

record Normalized =
  normHtml :: string
  normImages :: "string list"

definition normalizeBody :: "node list \<Rightarrow> node list" where
  "normalizeBody body =
     map (mapTree absolutizeLink) (map (mapTree absolutizeImage) (map (mapTree restoreLatex) body))"

definition cleanAndRestoreLatex :: "Parser \<Rightarrow> string \<Rightarrow> Normalized" where
  "cleanAndRestoreLatex parse rawHtml =
     (let body = bodyNodes (parse (''<div>'' @ rawHtml @ ''</div>''));
          body1 = map (mapTree restoreLatex) body;
          body2 = map (mapTree absolutizeImage) body1;
          body3 = map (mapTree absolutizeLink) body2
      in \<lparr> normHtml = innerHTML body3, normImages = imageSources body2 \<rparr>)"

section \<open>Example documents and auxiliary notions for the Segmenter and the Normalizer\<close>



definition demoSiblings :: "node list" where
  "demoSiblings = [Element ''p'' [] [TextNode ''What is 1+1?'']]"

definition demoSolutionHeading :: node where
  "demoSolutionHeading = Element ''h2'' [] [Element ''span'' [(''class'', ''mw-headline''), (''id'', ''Solution_1'')] [TextNode ''Solution 1'']]"

definition demoSeeAlsoHeading :: node where
  "demoSeeAlsoHeading = Element ''h2'' [] [Element ''span'' [(''class'', ''mw-headline''), (''id'', ''See_also'')] [TextNode ''See also'']]"

subsection \<open>The normalizer on trees\<close>

fun stable :: "node \<Rightarrow> bool" where
  "stable (TextNode s) = True"
| "stable (Element t a cs) =
     (restoreLatex (Element t a cs) = Element t a cs
      \<and> absolutizeImage (Element t a cs) = Element t a cs
      \<and> absolutizeLink (Element t a cs) = Element t a cs
      \<and> (\<forall>c \<in> set cs. stable c))"

definition normalizeNode :: "node \<Rightarrow> node" where
  "normalizeNode n = mapTree absolutizeLink (mapTree absolutizeImage (mapTree restoreLatex n))"

text \<open>
  The parser of the browser restricted to finitely many documents: each markup text of the
  table with the child nodes of the body it parses to. The texts of the tables below begin
  with an element, not with a document type declaration, and have nothing that belongs in
  the head: their documents are in quirks mode, with an empty head and a body without
  attributes.
\<close>

definition quirksDocument :: "node list \<Rightarrow> Document" where
  "quirksDocument nodes =
     \<lparr> quirksMode = True,
       documentElement = Element ''html'' [] [Element ''head'' [] [], Element ''body'' [] nodes] \<rparr>"

definition tabulatedParser :: "(string \<times> node list) list \<Rightarrow> Parser" where
  "tabulatedParser table markup =
     quirksDocument (case map_of table markup of Some nodes \<Rightarrow> nodes | None \<Rightarrow> [])"

definition emptyFragmentParser :: Parser where
  "emptyFragmentParser =
     tabulatedParser
       [(''<div></div>'', [Element ''div'' [] []]),
        (''<div><div></div></div>'', [Element ''div'' [] [Element ''div'' [] []]])]"

definition absoluteFragment :: string where
  "absoluteFragment = ''<p><img src='' @ [CHR 0x22] @ ''https://latex.artofproblemsolving.com/a.png''
     @ [CHR 0x22] @ ''></p>''"

definition absoluteFragmentTree :: "node list" where
  "absoluteFragmentTree =
     [Element ''p'' [] [Element ''img'' [(''src'', ''https://latex.artofproblemsolving.com/a.png'')] []]]"

definition absoluteFragmentParser :: Parser where
  "absoluteFragmentParser =
     tabulatedParser
       [(''<div>'' @ absoluteFragment @ ''</div>'', [Element ''div'' [] absoluteFragmentTree]),
        (''<div><div>'' @ absoluteFragment @ ''</div></div>'',
           [Element ''div'' [] [Element ''div'' [] absoluteFragmentTree]])]"

section \<open>Problem Assembler (fetchAoPSProblem)\<close>

text \<open>
  Everything the Assembler reads from outside is gathered in one record: the two proxies,
  the parser of the browser and the AI client.
\<close>

record World =
  primaryProxy :: "string \<Rightarrow> HttpResponse"
  backupProxy :: "string \<Rightarrow> BackupResponse"
  domParser :: Parser
  aiClient :: AiClient

text \<open>
  \<open>querySelectorAll(sel).forEach(e => e.remove())\<close> on the descendants of an element. A
  removed element takes its subtree with it.
\<close>

fun prune :: "(node \<Rightarrow> bool) \<Rightarrow> node \<Rightarrow> node" where
  "prune P (TextNode s) = TextNode s"
| "prune P (Element t a cs) = Element t a (map (prune P) (filter (\<lambda>c. \<not> P c) cs))"

definition isToc :: "bool \<Rightarrow> node \<Rightarrow> bool" where
  "isToc quirks n = (hasClass quirks ''toc'' n \<or> hasId quirks ''toc'' n)"

definition isNoticeList :: "node \<Rightarrow> bool" where
  "isNoticeList n =
     (localName n = ''dl''
      \<and> (strIncludes (textContent n) ''following problem is from''
         \<or> strIncludes (textContent n) ''redirects to this page''))"

definition isProblemHeader :: "bool \<Rightarrow> node \<Rightarrow> bool" where
  "isProblemHeader quirks h =
     (localName h = ''h2''
      \<and> (elementId h = ''Problem'' \<or> trim (textContent h) = ''Problem''
         \<or> querySelector (hasId quirks ''Problem'') h \<noteq> None))"

text \<open>
  The first level-2 heading, in document order, that is the Problem header; the result is
  the list of the siblings that follow it.
\<close>

fun findHeaderIn :: "bool \<Rightarrow> node \<Rightarrow> node list option"
  and findHeader :: "bool \<Rightarrow> node list \<Rightarrow> node list option" where
  "findHeaderIn quirks (TextNode s) = None"
| "findHeaderIn quirks (Element t a cs) = findHeader quirks cs"
| "findHeader quirks [] = None"
| "findHeader quirks (n # rest) =
     (if isProblemHeader quirks n then Some rest
      else (case findHeaderIn quirks n of
              Some following \<Rightarrow> Some following
            | None \<Rightarrow> findHeader quirks rest))"

definition segmentDocument :: "Document \<Rightarrow> string + (string \<times> string)" where
  "segmentDocument doc =
     (let quirks = quirksMode doc
      in case querySelectorDocument (hasClass quirks ''mw-parser-output'') doc of
           None \<Rightarrow> Inl ''Could not find content (.mw-parser-output)''
         | Some contentDiv \<Rightarrow>
             (let content = prune isNoticeList (prune (isToc quirks) contentDiv);
                  start = (case findHeader quirks (childNodes content) of
                             Some following \<Rightarrow> following
                           | None \<Rightarrow> childNodes content)
              in case walk quirks Question start [] [] of
                   (mode, questionAccumulator, solutionAccumulator) \<Rightarrow>
                     if trim questionAccumulator = [] then Inl ''No question content found''
                     else Inr (questionAccumulator, solutionAccumulator)))"

text \<open>The body of the \<open>try\<close> block: the Problem, or the error raised, and the console output.\<close>

definition assembleProblem :: "World \<Rightarrow> string \<Rightarrow> string \<Rightarrow> (string + Problem) \<times> string list" where
  "assembleProblem w target pid =
     (case fetchViaProxy (primaryProxy w) (backupProxy w) target 1 of
        (Inl e, logs) \<Rightarrow> (Inl e, logs)
      | (Inr page, logs) \<Rightarrow>
          (case segmentDocument (domParser w page) of
             Inl e \<Rightarrow> (Inl e, logs)
           | Inr (questionAccumulator, solutionAccumulator) \<Rightarrow>
               (let questionData = cleanAndRestoreLatex (domParser w) questionAccumulator;
                    solutionData = cleanAndRestoreLatex (domParser w)
                      (if solutionAccumulator = [] then ''<p>Solution parsing failed.</p>''
                       else solutionAccumulator)
                in case extractCorrectOption (aiClient w) (normHtml solutionData) of
                     Inl e \<Rightarrow> (Inl e, logs)
                   | Inr answer \<Rightarrow>
                       (Inr \<lparr> problemId = pid, source = AOPS, originalUrl = Some target,
                              questionHtml = normHtml questionData,
                              images = normImages questionData,
                              options = [''A'', ''B'', ''C'', ''D'', ''E''],
                              correctOption = answer,
                              solutionHtml = normHtml solutionData,
                              difficulty = 5, userAnswer = None, isCorrect = None,
                              hints = [], solutionChat = [], topic = None \<rparr>,
                        logs))))"

definition scrapingWarning :: "string \<Rightarrow> string \<Rightarrow> string" where
  "scrapingWarning target e = ''Scraping error for '' @ target @ '': '' @ e"

definition fetchAoPSProblem ::
  "World \<Rightarrow> string \<Rightarrow> string \<Rightarrow> ExamLevel \<Rightarrow> Problem option \<times> string list" where
  "fetchAoPSProblem w target pid lvl =
     (case assembleProblem w target pid of
        (Inr problem, logs) \<Rightarrow> (Some problem, logs)
      | (Inl e, logs) \<Rightarrow> (None, logs @ [scrapingWarning target e]))"

text \<open>A page with a Problem header, one paragraph, a solution and a See-also trailer.\<close>

definition demoProblemHeading :: node where
  "demoProblemHeading =
     Element ''h2'' [] [Element ''span'' [(''class'', ''mw-headline''), (''id'', ''Problem'')] [TextNode ''Problem'']]"

definition demoSolutionParagraph :: node where
  "demoSolutionParagraph = Element ''p'' [] [TextNode (''The sum is 2, so '' @ boxedTextbf CHR ''B'' @ ''.'')]"

definition demoPage :: "node list" where
  "demoPage =
     [Element ''div'' [(''class'', ''mw-parser-output'')]
        ([demoProblemHeading] @ demoSiblings
         @ [demoSolutionHeading, demoSolutionParagraph, demoSeeAlsoHeading,
            Element ''ul'' [] [Element ''li'' [] [TextNode ''nav'']]])]"

definition demoSolutionMarkup :: string where
  "demoSolutionMarkup = solutionSubHeading demoSolutionHeading @ outerHTML demoSolutionParagraph"

definition demoParser :: Parser where
  "demoParser =
     tabulatedParser
       [(innerHTML demoPage, demoPage),
        (''<div>'' @ innerHTML demoSiblings @ ''</div>'', [Element ''div'' [] demoSiblings]),
        (''<div>'' @ demoSolutionMarkup @ ''</div>'',
           [Element ''div'' []
              [Element ''h3''
                 [(''class'', ''font-bold text-lg mt-6 mb-3 text-slate-800 border-b border-slate-200 pb-2'')]
                 [TextNode ''Solution 1''],
               demoSolutionParagraph]])]"

definition demoWorld :: World where
  "demoWorld =
     \<lparr> primaryProxy = (\<lambda>u. HttpResponse False 503 []),
       backupProxy = (\<lambda>u. BackupResponse True 200 (Contents (Some (innerHTML demoPage)))),
       domParser = demoParser,
       aiClient = None \<rparr>"

definition offlineWorld :: World where
  "offlineWorld =
     \<lparr> primaryProxy = (\<lambda>u. NetworkFailure ''Failed to fetch''),
       backupProxy = (\<lambda>u. BackupFailure ''Failed to fetch''),
       domParser = demoParser,
       aiClient = None \<rparr>"

definition plainSolutionParagraph :: node where
  "plainSolutionParagraph = Element ''p'' [] [TextNode ''The sum is 2.'']"

definition plainPage :: "node list" where
  "plainPage =
     [Element ''div'' [(''class'', ''mw-parser-output'')]
        ([demoProblemHeading] @ demoSiblings @ [demoSolutionHeading, plainSolutionParagraph])]"

definition plainParser :: Parser where
  "plainParser =
     tabulatedParser
       [(innerHTML plainPage, plainPage),
        (''<div>'' @ innerHTML demoSiblings @ ''</div>'', [Element ''div'' [] demoSiblings]),
        (''<div>'' @ solutionSubHeading demoSolutionHeading @ outerHTML plainSolutionParagraph @ ''</div>'',
           [Element ''div'' []
              [Element ''h3''
                 [(''class'', ''font-bold text-lg mt-6 mb-3 text-slate-800 border-b border-slate-200 pb-2'')]
                 [TextNode ''Solution 1''],
               plainSolutionParagraph]])]"

definition noKeyWorld :: World where
  "noKeyWorld =
     \<lparr> primaryProxy = (\<lambda>u. HttpResponse False 503 []),
       backupProxy = (\<lambda>u. BackupResponse True 200 (Contents (Some (innerHTML plainPage)))),
       domParser = plainParser,
       aiClient = None \<rparr>"

definition blankWorld :: World where
  "blankWorld =
     \<lparr> primaryProxy = (\<lambda>u. HttpResponse False 503 []),
       backupProxy = (\<lambda>u. BackupResponse True 200 (Contents (Some ''<p>Not found</p>''))),
       domParser = tabulatedParser [(''<p>Not found</p>'', [Element ''p'' [] [TextNode ''Not found'']])],
       aiClient = None \<rparr>"

text \<open>A page whose solution states the answer in prose only, without a letter.\<close>

definition proseSolutionParagraph :: node where
  "proseSolutionParagraph = Element ''p'' [] [TextNode ''So the answer is clearly 2.'']"

definition prosePage :: "node list" where
  "prosePage =
     [Element ''div'' [(''class'', ''mw-parser-output'')]
        ([demoProblemHeading] @ demoSiblings @ [demoSolutionHeading, proseSolutionParagraph])]"

definition proseParser :: Parser where
  "proseParser =
     tabulatedParser
       [(innerHTML prosePage, prosePage),
        (''<div>'' @ innerHTML demoSiblings @ ''</div>'', [Element ''div'' [] demoSiblings]),
        (''<div>'' @ solutionSubHeading demoSolutionHeading @ outerHTML proseSolutionParagraph @ ''</div>'',
           [Element ''div'' []
              [Element ''h3''
                 [(''class'', ''font-bold text-lg mt-6 mb-3 text-slate-800 border-b border-slate-200 pb-2'')]
                 [TextNode ''Solution 1''],
               proseSolutionParagraph]])]"

definition proseWorld :: World where
  "proseWorld =
     \<lparr> primaryProxy = (\<lambda>u. HttpResponse False 503 []),
       backupProxy = (\<lambda>u. BackupResponse True 200 (Contents (Some (innerHTML prosePage)))),
       domParser = proseParser,
       aiClient = None \<rparr>"

section \<open>Lenient JSON extraction (parseJsonFromResponse)\<close>

text \<open>
  \<open>JSON.parse\<close> is a parameter: \<open>None\<close> when it raises a syntax error, the parsed value
  otherwise. \<open>indexOf\<close> and \<open>lastIndexOf\<close> give \<open>None\<close> for -1; \<open>substring\<close> swaps its
  arguments when the first is the larger.
\<close>

fun indexOf :: "string \<Rightarrow> char \<Rightarrow> nat option" where
  "indexOf [] c = None"
| "indexOf (x # xs) c = (if x = c then Some 0 else map_option Suc (indexOf xs c))"

fun lastIndexOf :: "string \<Rightarrow> char \<Rightarrow> nat option" where
  "lastIndexOf [] c = None"
| "lastIndexOf (x # xs) c =
     (case lastIndexOf xs c of
        Some i \<Rightarrow> Some (Suc i)
      | None \<Rightarrow> if x = c then Some 0 else None)"

definition substring :: "string \<Rightarrow> nat \<Rightarrow> nat \<Rightarrow> string" where
  "substring s a b = take (max a b - min a b) (drop (min a b) s)"

definition fenceJsonRx :: regex where
  "fenceJsonRx = lit ''```json'' @ [Star Space]"

definition fenceEndRx :: regex where
  "fenceEndRx = lit ''```'' @ [Star Space, End]"

definition fenceRx :: regex where
  "fenceRx = lit ''```''"

definition stripFences :: "string \<Rightarrow> string" where
  "stripFences t =
     trim (replaceAll False fenceRx [] (replaceAll False fenceEndRx [] (replaceAll True fenceJsonRx [] t)))"

text \<open>Steps 1 and 2 of \<open>parseJsonFromResponse\<close>: the text that is handed to \<open>JSON.parse\<close>.\<close>

definition extractJsonText :: "string \<Rightarrow> string" where
  "extractJsonText t =
     (let clean = stripFences t;
          first = indexOf clean CHR ''{'';
          firstArr = indexOf clean CHR ''['';
          last = lastIndexOf clean CHR ''}'';
          lastArr = lastIndexOf clean CHR '']''
      in if firstArr \<noteq> None \<and> (first = None \<or> the firstArr < the first) then
           (if lastArr \<noteq> None then substring clean (the firstArr) (the lastArr + 1) else clean)
         else if first \<noteq> None \<and> last \<noteq> None then substring clean (the first) (the last + 1)
         else clean)"

text \<open>Step 4: every backslash doubled, then every run of three backslashes cut to two.\<close>

definition repairBackslashes :: "string \<Rightarrow> string" where
  "repairBackslashes clean =
     replaceAll False (lit [CHR 0x5C, CHR 0x5C, CHR 0x5C]) [CHR 0x5C, CHR 0x5C]
       (replaceAll False (lit [CHR 0x5C]) [CHR 0x5C, CHR 0x5C] clean)"

definition parseJsonFromResponse :: "(string \<Rightarrow> 'j option) \<Rightarrow> string option \<Rightarrow> 'j option" where
  "parseJsonFromResponse jsonParse t =
     (case t of
        None \<Rightarrow> None
      | Some txt \<Rightarrow>
          if txt = [] then None
          else (let clean = extractJsonText txt
                in case jsonParse clean of
                     Some v \<Rightarrow> Some v
                   | None \<Rightarrow>
                       (case jsonParse (repairBackslashes clean) of
                          Some v \<Rightarrow> Some v
                        | None \<Rightarrow> None)))"

text \<open>A response text: an opening fence, the JSON text, a closing fence and a trailing text.\<close>

definition fenced :: "string \<Rightarrow> string \<Rightarrow> string \<Rightarrow> string \<Rightarrow> string" where
  "fenced ws1 j ws2 tail = ''```json'' @ ws1 @ j @ ws2 @ ''```'' @ tail"

definition startsWithFence :: "regex \<Rightarrow> bool" where
  "startsWithFence rx = (\<exists>r. rx = One (Chars ''`'') # One (Chars ''`'') # One (Chars ''`'') # r)"

text \<open>Parsed JSON values, for the examples; a tabulated \<open>JSON.parse\<close>.\<close>

datatype json = JNull | JBool bool | JNumber int | JString string | JArray "json list"
  | JObject "(string \<times> json) list"

definition tabulatedJson :: "(string \<times> json) list \<Rightarrow> string \<Rightarrow> json option" where
  "tabulatedJson table s = map_of table s"

definition quoted :: "string \<Rightarrow> string" where
  "quoted s = [CHR 0x22] @ s @ [CHR 0x22]"

definition backtickObject :: string where
  "backtickObject = ''{'' @ quoted ''a'' @ '':'' @ quoted ''```'' @ ''}''"

definition emptiedObject :: string where
  "emptiedObject = ''{'' @ quoted ''a'' @ '':'' @ quoted [] @ ''}''"

definition backtickJson :: "string \<Rightarrow> json option" where
  "backtickJson =
     tabulatedJson
       [(backtickObject, JObject [(''a'', JString ''```'')]),
        (emptiedObject, JObject [(''a'', JString [])])]"

definition listObject :: string where
  "listObject = ''{'' @ quoted ''x'' @ '':[1,2]}''"

definition listJson :: "string \<Rightarrow> json option" where
  "listJson = tabulatedJson [(listObject, JObject [(''x'', JArray [JNumber 1, JNumber 2])])]"

chapter \<open>Verified properties\<close>

section \<open>Catalog Generator\<close>

subsection \<open>Decimal rendering and task ids\<close>

lemma digit_lt10: "d < 10 \<Longrightarrow> d \<in> {0,1,2,3,4,5,6,7,8,9::nat}" by auto

lemma digit_nodash: "d < 10 \<Longrightarrow> digit d \<noteq> CHR ''-''"
  using digit_lt10[of d] by (auto simp: digit_def)

lemma digit_inj: "a < 10 \<Longrightarrow> b < 10 \<Longrightarrow> digit a = digit b \<Longrightarrow> a = b"
  using digit_lt10[of a] digit_lt10[of b] by (auto simp: digit_def)

lemma showNat_nodash: "CHR ''-'' \<notin> set (showNat n)"
proof (induction n rule: showNat.induct)
  case (1 n)
  show ?case
  proof (cases "n < 10")
    case True
    then show ?thesis using digit_nodash[of n] by (simp add: showNat.simps[of n])
  next
    case False
    then show ?thesis using 1 digit_nodash[of "n mod 10"] by (simp add: showNat.simps[of n])
  qed
qed

lemma showNat_nonempty: "showNat n \<noteq> []"
  by (subst showNat.simps) simp

lemma showNat_inj: "showNat m = showNat n \<Longrightarrow> m = n"
proof (induction m arbitrary: n rule: showNat.induct)
  case (1 m)
  show ?case
  proof (cases "m < 10")
    case mlt: True
    show ?thesis
    proof (cases "n < 10")
      case True
      with mlt 1(2) show ?thesis by (simp add: showNat.simps[of m] showNat.simps[of n] digit_inj)
    next
      case False
      with mlt 1(2) showNat_nonempty[of "n div 10"] show ?thesis
        by (simp add: showNat.simps[of m] showNat.simps[of n])
    qed
  next
    case mge: False
    show ?thesis
    proof (cases "n < 10")
      case True
      with mge 1(2) showNat_nonempty[of "m div 10"] show ?thesis
        by (simp add: showNat.simps[of m] showNat.simps[of n])
    next
      case False
      with mge 1(2) have eq: "showNat (m div 10) = showNat (n div 10)" and d: "digit (m mod 10) = digit (n mod 10)"
        by (simp_all add: showNat.simps[of m] showNat.simps[of n])
      from 1(1)[OF mge eq] have "m div 10 = n div 10" .
      moreover from d have "m mod 10 = n mod 10" by (intro digit_inj) simp_all
      ultimately show ?thesis by (metis div_mult_mod_eq)
    qed
  qed
qed

lemma showInt_nodash: "0 \<le> i \<Longrightarrow> CHR ''-'' \<notin> set (showInt i)"
  by (simp add: showInt_def showNat_nodash)

lemma showInt_inj: "0 \<le> i \<Longrightarrow> 0 \<le> j \<Longrightarrow> showInt i = showInt j \<Longrightarrow> i = j"
  using showNat_inj[of "nat i" "nat j"] by (simp add: showInt_def)

lemma split_at_sep:
  "c \<notin> set a \<Longrightarrow> c \<notin> set a' \<Longrightarrow> a @ c # b = a' @ c # b' \<Longrightarrow> a = a' \<and> b = b'"
proof (induction a arbitrary: a')
  case Nil
  then show ?case by (cases a') auto
next
  case (Cons x a)
  then show ?case by (cases a') auto
qed

lemma splitOn_nonempty: "splitOn c s \<noteq> []"
  by (induction s) (auto split: list.splits)

lemma splitOn_nosep: "c \<notin> set s \<Longrightarrow> splitOn c s = [s]"
  by (induction s) auto

lemma splitOn_sep_length: "Suc 0 < length (splitOn c (a @ c # b))"
  by (induction a) (auto simp: splitOn_nonempty split: list.splits)

lemma last_splitOn_append: "last (splitOn c (a @ c # b)) = last (splitOn c b)"
proof (induction a)
  case Nil
  then show ?case by (simp add: splitOn_nonempty)
next
  case (Cons x a)
  show ?case
  proof (cases "splitOn c (a @ c # b)")
    case Nil
    then show ?thesis by (simp add: splitOn_nonempty)
  next
    case (Cons w ws)
    with splitOn_sep_length[of c a b] have "ws \<noteq> []" by auto
    with Cons Cons.IH show ?thesis by auto
  qed
qed

lemma problemNumber_mkTask:
  "0 \<le> i \<Longrightarrow> problemNumber (mkTask y lvl w d suf i) = Some (showInt i)"
  using last_splitOn_append[of "CHR ''-''" "showInt y" "suf @ CHR ''-'' # showInt i"]
        last_splitOn_append[of "CHR ''-''" "suf" "showInt i"]
  by (simp add: problemNumber_def mkTask_def pop_def splitOn_nonempty splitOn_nosep showInt_nodash)

lemma taskId_inj:
  assumes "0 \<le> y" "0 \<le> y'" "0 \<le> i" "0 \<le> i'"
    and "CHR ''-'' \<notin> set s" "CHR ''-'' \<notin> set s'"
    and "taskId (mkTask y l w d s i) = taskId (mkTask y' l' w' d' s' i')"
  shows "y = y' \<and> s = s' \<and> i = i'"
proof -
  from assms(7) have e: "showInt y @ CHR ''-'' # (s @ CHR ''-'' # showInt i) = showInt y' @ CHR ''-'' # (s' @ CHR ''-'' # showInt i')"
    by (simp add: mkTask_def)
  from split_at_sep[OF _ _ e] assms have a: "showInt y = showInt y'" and b: "s @ CHR ''-'' # showInt i = s' @ CHR ''-'' # showInt i'"
    by (simp_all add: showInt_nodash)
  from split_at_sep[OF assms(5,6) b] have "s = s'" "showInt i = showInt i'" by simp_all
  with a assms show ?thesis by (simp add: showInt_inj)
qed

lemma set_addTask: "set (addTask y l w d s c) = mkTask y l w d s ` {1..c}"
  by (simp add: addTask_def)

lemma set_yearsDown: "set (yearsDown hi lo body) = (\<Union>y\<in>{lo..hi}. set (body y))"
  by (simp add: yearsDown_def)

lemma concat_single_key:
  "distinct ys \<Longrightarrow> (\<And>y. y \<in> set ys \<Longrightarrow> y \<noteq> y0 \<Longrightarrow> F y = [])
   \<Longrightarrow> concat (map F ys) = (if y0 \<in> set ys then F y0 else [])"
proof (induction ys)
  case Nil
  then show ?case by simp
next
  case (Cons y ys)
  have tl: "concat (map F ys) = (if y0 \<in> set ys then F y0 else [])"
    using Cons by simp
  show ?case
  proof (cases "y = y0")
    case True
    with Cons.prems(1) have "y0 \<notin> set ys" by simp
    with tl True show ?thesis by simp
  next
    case False
    with Cons.prems(2)[of y] have "F y = []" by simp
    with tl False show ?thesis by simp
  qed
qed

lemma filter_yearsDown:
  assumes "\<And>y. y \<noteq> y0 \<Longrightarrow> filter P (body y) = []"
  shows "filter P (yearsDown hi lo body) = (if lo \<le> y0 \<and> y0 \<le> hi then filter P (body y0) else [])"
proof -
  have "filter P (yearsDown hi lo body) = concat (map (\<lambda>y. filter P (body y)) (rev [lo..hi]))"
    by (simp add: yearsDown_def filter_concat comp_def)
  also have "\<dots> = (if y0 \<in> set (rev [lo..hi]) then filter P (body y0) else [])"
    by (rule concat_single_key) (simp_all add: assms)
  finally show ?thesis by simp
qed

lemma filter_addTask:
  "filter (\<lambda>u. level u = l \<and> year u = y0 \<and> E (examType u)) (addTask y lvl w disp suf c)
   = (if lvl = l \<and> y = y0 \<and> E disp then addTask y lvl w disp suf c else [])"
  by (simp add: addTask_def mkTask_def filter_map comp_def)

lemma problemNumber_addTask:
  "map problemNumber (addTask y lvl w disp suf c) = map (\<lambda>i. Some (showInt i)) [1..c]"
  by (simp add: addTask_def problemNumber_mkTask)

lemma filter_amc8:
  "filter (\<lambda>u. level u = l \<and> year u = y0 \<and> E (examType u)) (yearsDown hi lo amc8Tasks)
   = (if lo \<le> y0 \<and> y0 \<le> hi then filter (\<lambda>u. level u = l \<and> year u = y0 \<and> E (examType u)) (amc8Tasks y0) else [])"
  by (rule filter_yearsDown) (simp add: amc8Tasks_def Let_def filter_addTask)

lemma filter_amc10:
  "filter (\<lambda>u. level u = l \<and> year u = y0 \<and> E (examType u)) (yearsDown hi lo amc10Tasks)
   = (if lo \<le> y0 \<and> y0 \<le> hi then filter (\<lambda>u. level u = l \<and> year u = y0 \<and> E (examType u)) (amc10Tasks y0) else [])"
  by (rule filter_yearsDown) (simp add: amc10Tasks_def filter_addTask)

lemma filter_amc12:
  "filter (\<lambda>u. level u = l \<and> year u = y0 \<and> E (examType u)) (yearsDown hi lo amc12Tasks)
   = (if lo \<le> y0 \<and> y0 \<le> hi then filter (\<lambda>u. level u = l \<and> year u = y0 \<and> E (examType u)) (amc12Tasks y0) else [])"
  by (rule filter_yearsDown) (simp add: amc12Tasks_def filter_addTask)

lemma filter_queue:
  "filter (\<lambda>u. level u = l \<and> year u = y0 \<and> E (examType u)) generateFullCatalogQueue
   = (if l = AMC8 \<and> 1985 \<le> y0 \<and> y0 \<le> 2025 then filter (\<lambda>u. E (examType u)) (amc8Tasks y0) else [])
   @ (if l = AMC10 \<and> 2000 \<le> y0 \<and> y0 \<le> 2025 then filter (\<lambda>u. E (examType u)) (amc10Tasks y0) else [])
   @ (if l = AMC12 \<and> 2000 \<le> y0 \<and> y0 \<le> 2025 then filter (\<lambda>u. E (examType u)) (amc12Tasks y0) else [])"
  by (simp add: generateFullCatalogQueue_def filter_amc8 filter_amc10 filter_amc12
      CURRENT_YEAR_def AMC8_START_YEAR_def AMC10_12_START_YEAR_def
      amc8Tasks_def amc10Tasks_def amc12Tasks_def Let_def addTask_def mkTask_def filter_map comp_def)

lemma filter_addTask_E:
  "filter (\<lambda>u. E (examType u)) (addTask y lvl w disp suf c)
   = (if E disp then addTask y lvl w disp suf c else [])"
  by (simp add: addTask_def mkTask_def filter_map comp_def)

lemma tasksOf_numbers:
  "tasksOf l y d = [] \<or> map problemNumber (tasksOf l y d) = map (\<lambda>i. Some (showInt i)) [1..25]"
  unfolding tasksOf_def filter_queue[where E = "\<lambda>e. e = d"]
  by (cases l) (auto simp: amc8Tasks_def amc10Tasks_def amc12Tasks_def Let_def
     filter_addTask_E[where E = "\<lambda>e. e = d"] problemNumber_addTask)

lemma tasksOf_member: "t \<in> set generateFullCatalogQueue \<Longrightarrow> t \<in> set (tasksOf (level t) (year t) (examType t))"
  by (simp add: tasksOf_def)

lemma examType_addTask: "examType ` set (addTask y l w d s 25) = {d}"
proof -
  have "examType ` set (addTask y l w d s 25) = (\<lambda>i. d) ` {1..25::int}"
    by (simp add: set_addTask image_image mkTask_def)
  then show ?thesis by (simp add: image_constant[of 1])
qed

lemma variantsOf_eq:
  "variantsOf l y =
     (if l = AMC8 \<and> 1985 \<le> y \<and> y \<le> 2025 then {if y \<le> 1998 then ''AJHSME'' else ''AMC 8''}
      else if l = AMC10 \<and> 2000 \<le> y \<and> y \<le> 2025 then
        (if y = 2000 \<or> y = 2001 then {''AMC 10''} else {''AMC 10A'', ''AMC 10B''})
      else if l = AMC12 \<and> 2000 \<le> y \<and> y \<le> 2025 then
        (if y = 2000 \<or> y = 2001 then {''AMC 12''} else {''AMC 12A'', ''AMC 12B''})
      else {})"
proof -
  have "variantsOf l y = examType ` set (filter (\<lambda>u. level u = l \<and> year u = y \<and> True) generateFullCatalogQueue)"
    by (simp add: variantsOf_def)
  also have "\<dots> = (if l = AMC8 \<and> 1985 \<le> y \<and> y \<le> 2025 then {if y \<le> 1998 then ''AJHSME'' else ''AMC 8''}
      else if l = AMC10 \<and> 2000 \<le> y \<and> y \<le> 2025 then
        (if y = 2000 \<or> y = 2001 then {''AMC 10''} else {''AMC 10A'', ''AMC 10B''})
      else if l = AMC12 \<and> 2000 \<le> y \<and> y \<le> 2025 then
        (if y = 2000 \<or> y = 2001 then {''AMC 12''} else {''AMC 12A'', ''AMC 12B''})
      else {})"
    unfolding filter_queue[where E = "\<lambda>e. True"]
    by (cases l) (auto simp: amc8Tasks_def amc10Tasks_def amc12Tasks_def Let_def
        filter_addTask_E[where E = "\<lambda>e. True"] examType_addTask image_Un)
  finally show ?thesis .
qed

lemma distinct_map_concat:
  assumes "distinct ys"
    and "\<And>y. y \<in> set ys \<Longrightarrow> distinct (map f (body y))"
    and "\<And>y y' a b. y \<in> set ys \<Longrightarrow> y' \<in> set ys \<Longrightarrow> a \<in> set (body y) \<Longrightarrow> b \<in> set (body y')
           \<Longrightarrow> f a = f b \<Longrightarrow> y = y'"
  shows "distinct (map f (concat (map body ys)))"
  using assms
proof (induction ys)
  case Nil
  then show ?case by simp
next
  case (Cons y ys)
  have tl: "distinct (map f (concat (map body ys)))"
    using Cons by simp
  have disj: "f ` set (body y) \<inter> f ` (\<Union>z\<in>set ys. set (body z)) = {}"
  proof (rule ccontr)
    assume "f ` set (body y) \<inter> f ` (\<Union>z\<in>set ys. set (body z)) \<noteq> {}"
    then obtain a b z where ab: "a \<in> set (body y)" "z \<in> set ys" "b \<in> set (body z)" "f a = f b"
      by auto
    from Cons.prems(3)[of y z a b] ab have "y = z" by simp
    with ab(2) Cons.prems(1) show False by simp
  qed
  from Cons.prems(2)[of y] tl disj show ?case by simp
qed

text \<open>The id of a task as one string, and the ids of a set of years and id suffixes.\<close>

definition idText :: "int \<Rightarrow> string \<Rightarrow> int \<Rightarrow> string" where
  "idText y s i = showInt y @ ''-'' @ s @ ''-'' @ showInt i"

definition idsWith :: "int set \<Rightarrow> string set \<Rightarrow> string set" where
  "idsWith Y S = {idText y s i | y s i. y \<in> Y \<and> 0 \<le> y \<and> 0 \<le> i \<and> s \<in> S \<and> CHR ''-'' \<notin> set s}"

lemma taskId_mkTask: "taskId (mkTask y l w d s i) = idText y s i"
  by (simp add: mkTask_def idText_def)

lemma idText_inj:
  assumes "0 \<le> y" "0 \<le> y'" "0 \<le> i" "0 \<le> i'"
    and "CHR ''-'' \<notin> set s" "CHR ''-'' \<notin> set s'"
    and "idText y s i = idText y' s' i'"
  shows "y = y' \<and> s = s' \<and> i = i'"
  using taskId_inj[OF assms(1-6), of undefined undefined undefined undefined undefined undefined] assms(7)
  by (simp add: taskId_mkTask)

lemma distinct_ids_addTask:
  assumes "0 \<le> y" "CHR ''-'' \<notin> set s"
  shows "distinct (map taskId (addTask y l w d s c))"
proof -
  have "inj_on (\<lambda>i. idText y s i) {1..c}"
    by (rule inj_onI) (use assms idText_inj[of y y _ _ s s] in auto)
  then show ?thesis by (simp add: addTask_def distinct_map comp_def taskId_mkTask)
qed

lemma ids_addTask:
  "0 \<le> y \<Longrightarrow> CHR ''-'' \<notin> set s \<Longrightarrow> taskId ` set (addTask y l w d s c) \<subseteq> idsWith {y} {s}"
  by (auto simp: set_addTask idsWith_def taskId_mkTask)

lemma idsWith_disjoint: "Y \<inter> Y' = {} \<or> S \<inter> T = {} \<Longrightarrow> idsWith Y S \<inter> idsWith Y' T = {}"
proof (rule ccontr)
  assume d: "Y \<inter> Y' = {} \<or> S \<inter> T = {}" and "idsWith Y S \<inter> idsWith Y' T \<noteq> {}"
  then obtain y s i y' s' i' where
    h: "0 \<le> y" "0 \<le> y'" "0 \<le> i" "0 \<le> i'" "CHR ''-'' \<notin> set s" "CHR ''-'' \<notin> set s'"
       "idText y s i = idText y' s' i'" and m: "s \<in> S" "s' \<in> T" "y \<in> Y" "y' \<in> Y'"
    unfolding idsWith_def by blast
  from idText_inj[OF h] have "s = s'" "y = y'" by simp_all
  with m d show False by auto
qed

lemma idsWith_mono: "Y \<subseteq> Y' \<Longrightarrow> S \<subseteq> T \<Longrightarrow> idsWith Y S \<subseteq> idsWith Y' T"
  unfolding idsWith_def by blast

lemma ids_amc8: "0 \<le> y \<Longrightarrow> taskId ` set (amc8Tasks y) \<subseteq> idsWith {y} {''amc8''}"
  unfolding amc8Tasks_def Let_def by (rule ids_addTask) simp_all

lemma ids_amc10: "0 \<le> y \<Longrightarrow> taskId ` set (amc10Tasks y) \<subseteq> idsWith {y} {''amc10'', ''amc10a'', ''amc10b''}"
proof -
  assume y: "0 \<le> y"
  have "taskId ` set (amc10Tasks y)
        \<subseteq> idsWith {y} {''amc10''} \<union> idsWith {y} {''amc10a''} \<union> idsWith {y} {''amc10b''}"
    using ids_addTask[OF y, of "''amc10''" AMC10 "''AMC_10''" "''AMC 10''" 25]
          ids_addTask[OF y, of "''amc10a''" AMC10 "''AMC_10A''" "''AMC 10A''" 25]
          ids_addTask[OF y, of "''amc10b''" AMC10 "''AMC_10B''" "''AMC 10B''" 25]
    by (auto simp: amc10Tasks_def image_Un)
  also have "\<dots> \<subseteq> idsWith {y} {''amc10'', ''amc10a'', ''amc10b''}"
    by (intro Un_least idsWith_mono) simp_all
  finally show ?thesis .
qed

lemma ids_amc12: "0 \<le> y \<Longrightarrow> taskId ` set (amc12Tasks y) \<subseteq> idsWith {y} {''amc12'', ''amc12a'', ''amc12b''}"
proof -
  assume y: "0 \<le> y"
  have "taskId ` set (amc12Tasks y)
        \<subseteq> idsWith {y} {''amc12''} \<union> idsWith {y} {''amc12a''} \<union> idsWith {y} {''amc12b''}"
    using ids_addTask[OF y, of "''amc12''" AMC12 "''AMC_12''" "''AMC 12''" 25]
          ids_addTask[OF y, of "''amc12a''" AMC12 "''AMC_12A''" "''AMC 12A''" 25]
          ids_addTask[OF y, of "''amc12b''" AMC12 "''AMC_12B''" "''AMC 12B''" 25]
    by (auto simp: amc12Tasks_def image_Un)
  also have "\<dots> \<subseteq> idsWith {y} {''amc12'', ''amc12a'', ''amc12b''}"
    by (intro Un_least idsWith_mono) simp_all
  finally show ?thesis .
qed

lemma distinct_amc8: "0 \<le> y \<Longrightarrow> distinct (map taskId (amc8Tasks y))"
  unfolding amc8Tasks_def Let_def by (rule distinct_ids_addTask) simp_all

lemma distinct_AB:
  assumes "0 \<le> y" "CHR ''-'' \<notin> set s" "CHR ''-'' \<notin> set s'" "s \<noteq> s'"
  shows "distinct (map taskId (addTask y l w d s c @ addTask y l' w' d' s' c'))"
proof -
  have "idsWith {y} {s} \<inter> idsWith {y} {s'} = {}"
    by (rule idsWith_disjoint) (use assms in simp)
  with ids_addTask[OF assms(1,2), of l w d c] ids_addTask[OF assms(1,3), of l' w' d' c']
  have "taskId ` set (addTask y l w d s c) \<inter> taskId ` set (addTask y l' w' d' s' c') = {}"
    by blast
  with distinct_ids_addTask[OF assms(1,2)] distinct_ids_addTask[OF assms(1,3)]
  show ?thesis by simp
qed

lemma distinct_amc10: "0 \<le> y \<Longrightarrow> distinct (map taskId (amc10Tasks y))"
  using distinct_AB[of y "''amc10a''" "''amc10b''" AMC10 "''AMC_10A''" "''AMC 10A''" 25 AMC10 "''AMC_10B''" "''AMC 10B''" 25]
        distinct_ids_addTask[of y "''amc10''" AMC10 "''AMC_10''" "''AMC 10''" 25]
  by (simp add: amc10Tasks_def)

lemma distinct_amc12: "0 \<le> y \<Longrightarrow> distinct (map taskId (amc12Tasks y))"
  using distinct_AB[of y "''amc12a''" "''amc12b''" AMC12 "''AMC_12A''" "''AMC 12A''" 25 AMC12 "''AMC_12B''" "''AMC 12B''" 25]
        distinct_ids_addTask[of y "''amc12''" AMC12 "''AMC_12''" "''AMC 12''" 25]
  by (simp add: amc12Tasks_def)

lemma distinct_yearsDown:
  assumes "0 \<le> lo"
    and "\<And>y. 0 \<le> y \<Longrightarrow> distinct (map taskId (body y))"
    and "\<And>y. 0 \<le> y \<Longrightarrow> taskId ` set (body y) \<subseteq> idsWith {y} S"
  shows "distinct (map taskId (yearsDown hi lo body))"
  unfolding yearsDown_def
proof (rule distinct_map_concat)
  show "distinct (rev [lo..hi])" by simp
next
  fix y assume "y \<in> set (rev [lo..hi])"
  with assms(1) have "0 \<le> y" by simp
  then show "distinct (map taskId (body y))" by (rule assms(2))
next
  fix y y' a b
  assume h: "y \<in> set (rev [lo..hi])" "y' \<in> set (rev [lo..hi])" "a \<in> set (body y)" "b \<in> set (body y')"
    "taskId a = taskId b"
  with assms(1) have y: "0 \<le> y" "0 \<le> y'" by simp_all
  have "taskId a \<in> idsWith {y} S"
    using assms(3)[OF y(1)] h(3) by (meson image_eqI subsetD)
  moreover have "taskId a \<in> idsWith {y'} S"
    using assms(3)[OF y(2)] h(4) h(5) by (metis image_eqI subsetD)
  ultimately have ne: "idsWith {y} S \<inter> idsWith {y'} S \<noteq> {}" by blast
  show "y = y'"
  proof (rule ccontr)
    assume "y \<noteq> y'"
    then have "{y} \<inter> {y'} = {} \<or> S \<inter> S = {}" by simp
    from idsWith_disjoint[OF this] ne show False by simp
  qed
qed

lemma ids_yearsDown:
  assumes "0 \<le> lo" and "\<And>y. 0 \<le> y \<Longrightarrow> taskId ` set (body y) \<subseteq> idsWith {y} S"
  shows "taskId ` set (yearsDown hi lo body) \<subseteq> idsWith UNIV S"
proof
  fix x assume "x \<in> taskId ` set (yearsDown hi lo body)"
  then obtain y where y: "lo \<le> y" "x \<in> taskId ` set (body y)"
    by (auto simp: set_yearsDown)
  from y(1) assms(1) have "0 \<le> y" by simp
  from assms(2)[OF this] y(2) have "x \<in> idsWith {y} S" by (rule subsetD)
  then show "x \<in> idsWith UNIV S" using idsWith_mono[of "{y}" UNIV S S] by auto
qed

lemma disj_sub: "A \<subseteq> X \<Longrightarrow> B \<subseteq> Y \<Longrightarrow> X \<inter> Y = {} \<Longrightarrow> A \<inter> B = {}"
  by blast

lemma distinct_queue_ids: "distinct (map taskId generateFullCatalogQueue)"
proof -
  let ?A = "yearsDown CURRENT_YEAR AMC8_START_YEAR amc8Tasks"
  let ?B = "yearsDown CURRENT_YEAR AMC10_12_START_YEAR amc10Tasks"
  let ?C = "yearsDown CURRENT_YEAR AMC10_12_START_YEAR amc12Tasks"
  have lo: "0 \<le> AMC8_START_YEAR" "0 \<le> AMC10_12_START_YEAR"
    by (simp_all add: AMC8_START_YEAR_def AMC10_12_START_YEAR_def)
  have dA: "distinct (map taskId ?A)" by (rule distinct_yearsDown[OF lo(1) distinct_amc8 ids_amc8])
  have dB: "distinct (map taskId ?B)" by (rule distinct_yearsDown[OF lo(2) distinct_amc10 ids_amc10])
  have dC: "distinct (map taskId ?C)" by (rule distinct_yearsDown[OF lo(2) distinct_amc12 ids_amc12])
  have iA: "taskId ` set ?A \<subseteq> idsWith UNIV {''amc8''}" by (rule ids_yearsDown[OF lo(1) ids_amc8])
  have iB: "taskId ` set ?B \<subseteq> idsWith UNIV {''amc10'', ''amc10a'', ''amc10b''}"
    by (rule ids_yearsDown[OF lo(2) ids_amc10])
  have iC: "taskId ` set ?C \<subseteq> idsWith UNIV {''amc12'', ''amc12a'', ''amc12b''}"
    by (rule ids_yearsDown[OF lo(2) ids_amc12])
  have d1: "idsWith UNIV {''amc8''} \<inter> idsWith UNIV {''amc10'', ''amc10a'', ''amc10b''} = {}"
    by (rule idsWith_disjoint) simp
  have d2: "idsWith UNIV {''amc8''} \<inter> idsWith UNIV {''amc12'', ''amc12a'', ''amc12b''} = {}"
    by (rule idsWith_disjoint) simp
  have d3: "idsWith UNIV {''amc10'', ''amc10a'', ''amc10b''} \<inter> idsWith UNIV {''amc12'', ''amc12a'', ''amc12b''} = {}"
    by (rule idsWith_disjoint) simp
  have AB: "taskId ` set ?A \<inter> taskId ` set ?B = {}" by (rule disj_sub[OF iA iB d1])
  have AC: "taskId ` set ?A \<inter> taskId ` set ?C = {}" by (rule disj_sub[OF iA iC d2])
  have BC: "taskId ` set ?B \<inter> taskId ` set ?C = {}" by (rule disj_sub[OF iB iC d3])
  have "distinct (map taskId (?A @ ?B @ ?C))"
    using dA dB dC AB AC BC by (simp only: map_append distinct_append set_append set_map Int_Un_distrib simp_thms Un_empty)
  then show ?thesis by (simp only: generateFullCatalogQueue_def)
qed

text \<open>
  Claim C2. Every (exam family, year, variant) combination of the generated queue holds
  tasks whose problem numbers are exactly 1..25, in order; the AMC 10 and AMC 12 families
  have the single unified variant in 2000 and 2001 and exactly the variants A and B in
  every other year of their range; the AMC 8 family has one variant in every year of its
  range; and no two tasks of the queue share an id.
\<close>

theorem catalog_numbers_variants_ids:
  "(\<forall>t \<in> set generateFullCatalogQueue.
      map problemNumber (tasksOf (level t) (year t) (examType t))
        = map (\<lambda>i. Some (showInt i)) [1..25])
   \<and> (\<forall>y \<in> {2000..2025}.
        variantsOf AMC10 y = (if y = 2000 \<or> y = 2001 then {''AMC 10''} else {''AMC 10A'', ''AMC 10B''})
      \<and> variantsOf AMC12 y = (if y = 2000 \<or> y = 2001 then {''AMC 12''} else {''AMC 12A'', ''AMC 12B''}))
   \<and> (\<forall>y \<in> {1985..2025}. variantsOf AMC8 y = {if y \<le> 1998 then ''AJHSME'' else ''AMC 8''})
   \<and> distinct (map taskId generateFullCatalogQueue)"
proof (intro conjI ballI)
  fix t assume "t \<in> set generateFullCatalogQueue"
  from tasksOf_member[OF this] have "tasksOf (level t) (year t) (examType t) \<noteq> []" by auto
  with tasksOf_numbers[of "level t" "year t" "examType t"]
  show "map problemNumber (tasksOf (level t) (year t) (examType t)) = map (\<lambda>i. Some (showInt i)) [1..25]"
    by simp
next
  fix y :: int assume "y \<in> {2000..2025}"
  then show "variantsOf AMC10 y = (if y = 2000 \<or> y = 2001 then {''AMC 10''} else {''AMC 10A'', ''AMC 10B''})"
    by (simp add: variantsOf_eq)
next
  fix y :: int assume "y \<in> {2000..2025}"
  then show "variantsOf AMC12 y = (if y = 2000 \<or> y = 2001 then {''AMC 12''} else {''AMC 12A'', ''AMC 12B''})"
    by (simp add: variantsOf_eq)
next
  fix y :: int assume "y \<in> {1985..2025}"
  then show "variantsOf AMC8 y = {if y \<le> 1998 then ''AJHSME'' else ''AMC 8''}"
    by (simp add: variantsOf_eq)
next
  show "distinct (map taskId generateFullCatalogQueue)" by (rule distinct_queue_ids)
qed

lemma first_task_in_queue:
  "mkTask 2025 AMC8 ''AMC_8'' ''AMC 8'' ''amc8'' 1 \<in> set generateFullCatalogQueue"
proof -
  have "mkTask 2025 AMC8 ''AMC_8'' ''AMC 8'' ''amc8'' 1 \<in> set (amc8Tasks 2025)"
    by (simp add: amc8Tasks_def set_addTask)
  then have "mkTask 2025 AMC8 ''AMC_8'' ''AMC 8'' ''amc8'' 1
             \<in> set (yearsDown CURRENT_YEAR AMC8_START_YEAR amc8Tasks)"
    unfolding set_yearsDown CURRENT_YEAR_def AMC8_START_YEAR_def by (intro UN_I[of 2025]) simp_all
  then show ?thesis by (simp add: generateFullCatalogQueue_def)
qed

theorem catalog_numbers_variants_ids_witness:
  "map problemNumber (tasksOf AMC8 2025 ''AMC 8'') = map (\<lambda>i. Some (showInt i)) [1..25]
   \<and> variantsOf AMC10 2000 = {''AMC 10''}
   \<and> variantsOf AMC12 2010 = {''AMC 12A'', ''AMC 12B''}
   \<and> variantsOf AMC8 1998 = {''AJHSME''}
   \<and> distinct (map taskId generateFullCatalogQueue)"
proof -
  note main = catalog_numbers_variants_ids
  from main first_task_in_queue
  have "map problemNumber (tasksOf (level (mkTask 2025 AMC8 ''AMC_8'' ''AMC 8'' ''amc8'' 1))
          (year (mkTask 2025 AMC8 ''AMC_8'' ''AMC 8'' ''amc8'' 1))
          (examType (mkTask 2025 AMC8 ''AMC_8'' ''AMC 8'' ''amc8'' 1)))
        = map (\<lambda>i. Some (showInt i)) [1..25]"
    by blast
  then have a: "map problemNumber (tasksOf AMC8 2025 ''AMC 8'') = map (\<lambda>i. Some (showInt i)) [1..25]"
    by (simp add: mkTask_def)
  have "(2000::int) \<in> {2000..2025}" "(2010::int) \<in> {2000..2025}" "(1998::int) \<in> {1985..2025}"
    by simp_all
  with main have "variantsOf AMC10 2000 = (if (2000::int) = 2000 \<or> (2000::int) = 2001 then {''AMC 10''} else {''AMC 10A'', ''AMC 10B''})"
    "variantsOf AMC12 2010 = (if (2010::int) = 2000 \<or> (2010::int) = 2001 then {''AMC 12''} else {''AMC 12A'', ''AMC 12B''})"
    "variantsOf AMC8 1998 = {if (1998::int) \<le> 1998 then ''AJHSME'' else ''AMC 8''}"
    by blast+
  then have b: "variantsOf AMC10 2000 = {''AMC 10''}" "variantsOf AMC12 2010 = {''AMC 12A'', ''AMC 12B''}"
    "variantsOf AMC8 1998 = {''AJHSME''}" by simp_all
  from main have "distinct (map taskId generateFullCatalogQueue)" by blast
  with a b show ?thesis by simp
qed

section \<open>Batch Harvester\<close>

lemma stopIndex_step:
  "i < n \<Longrightarrow> stopIndex stop n i = (if stop i then i else stopIndex stop n (Suc i))"
  by (simp add: stopIndex_def upt_conv_Cons)

lemma stopIndex_end: "\<not> i < n \<Longrightarrow> stopIndex stop n i = i"
  by (simp add: stopIndex_def)

lemma stopIndex_bounds: "i \<le> stopIndex stop n i \<and> (i \<le> n \<longrightarrow> stopIndex stop n i \<le> n)"
proof -
  have "length (takeWhile (\<lambda>j. \<not> stop j) [i..<n]) \<le> length [i..<n]"
    by (rule length_takeWhile_le)
  then show ?thesis by (auto simp: stopIndex_def)
qed

lemma progressStats_append: "progressStats (xs @ ys) = progressStats xs @ progressStats ys"
  by (simp add: progressStats_def)

lemma successCount_Suc:
  "successCount queue asm (Suc j) = successCount queue asm j + (if isSuccess (outcomeOf queue asm j) then 1 else 0)"
  by (simp add: successCount_def)

lemma failureCount_Suc:
  "failureCount queue asm (Suc j) = failureCount queue asm j + (if isSuccess (outcomeOf queue asm j) then 0 else 1)"
  by (simp add: failureCount_def)

lemma count_0: "successCount queue asm 0 = 0" "failureCount queue asm 0 = 0"
  by (simp_all add: successCount_def failureCount_def)

lemma count_sum: "successCount queue asm j + failureCount queue asm j = j"
  using sum_length_filter_compl[of "\<lambda>i. isSuccess (outcomeOf queue asm i)" "[0..<j]"]
  by (simp add: successCount_def failureCount_def)

text \<open>An iteration begins its task, unless the call before the attempt throws.\<close>

lemma harvestTask_fetch:
  assumes "harvestTask queue asm cb i sf = (sf', es, a)"
  shows "filter isFetch es = [callOf queue i] \<or> (filter isFetch es = [] \<and> a \<noteq> None)"
proof (cases "cb i (snapshot queue (fst sf) (snd sf) (queue ! i)) (fetchingLog i queue (queue ! i)) None")
  case (Some err)
  have "harvestTask queue asm cb i sf
        = (sf, [OnProgress (snapshot queue (fst sf) (snd sf) (queue ! i)) (fetchingLog i queue (queue ! i)) None],
           Some err)"
    by (simp add: harvestTask_def Let_def Some)
  with assms have "es = [OnProgress (snapshot queue (fst sf) (snd sf) (queue ! i)) (fetchingLog i queue (queue ! i)) None]"
    "a = Some err" by auto
  then show ?thesis by simp
next
  case None
  with assms show ?thesis
    by (auto simp: harvestTask_def tryBlock_def catchBlock_def callOf_def Let_def
        split: sum.splits option.splits prod.splits)
qed

text \<open>An iteration with a callback that returns at every call.\<close>

lemma harvestTask_returns:
  assumes cb: "\<forall>i st l r. cb i st l r = None"
    and step: "harvestTask queue asm cb i (s, f) = ((s', f'), es, a)"
  shows "a = None"
    and "s' = s + (if isSuccess (outcomeOf queue asm i) then 1 else 0)"
    and "f' = f + (if isSuccess (outcomeOf queue asm i) then 0 else 1)"
    and "filter isFetch es = [callOf queue i]"
    and "progressStats es = [snapshot queue s f (queue ! i), snapshot queue s' f' (queue ! i)]"
    and "length (filter isProgress es) = 2"
    and "map isFetch (filter isCall es) = [False, True, False]"
  using step
  by (auto simp: harvestTask_def tryBlock_def catchBlock_def cb outcomeOf_def callOf_def
      isCall_def progressStats_def Let_def split: sum.splits option.splits)


lemma harvestLoop_begun:
  "harvestLoop queue asm cb stop i sf tr = (sf', tr', a) \<Longrightarrow>
     \<exists>m. i \<le> m \<and> m \<le> stopIndex stop (length queue) i
       \<and> filter isFetch tr' = filter isFetch tr @ map (callOf queue) [i..<m]
       \<and> (a = None \<longrightarrow> m = stopIndex stop (length queue) i)"
proof (induction queue asm cb stop i sf tr rule: harvestLoop.induct)
  case (1 queue asm cb stop i sf tr)
  show ?case
  proof (cases "i < length queue \<and> \<not> stop i")
    case False
    with "1.prems" have "tr' = tr" "a = None"
      by (auto simp: harvestLoop.simps[of queue asm cb stop i] split: if_splits)
    moreover from False have "stopIndex stop (length queue) i = i"
      by (cases "i < length queue") (simp_all add: stopIndex_step stopIndex_end)
    ultimately show ?thesis by (intro exI[of _ i]) simp
  next
    case True
    obtain sf1 es u where step: "harvestTask queue asm cb i sf = (sf1, es, u)"
      by (metis prod_cases3)
    from True have si: "stopIndex stop (length queue) i = stopIndex stop (length queue) (Suc i)"
      by (simp add: stopIndex_step)
    have lt: "i < stopIndex stop (length queue) (Suc i)"
      using stopIndex_bounds[of "Suc i" stop "length queue"] by simp
    from True have a: "i < length queue" and b: "\<not> stop i" by simp_all
    show ?thesis
    proof (cases u)
      case None
      with True step "1.prems" have rest: "harvestLoop queue asm cb stop (i + 1) sf1 (tr @ es) = (sf', tr', a)"
        by (simp add: harvestLoop.simps[of queue asm cb stop i])
      from harvestTask_fetch[OF step] None have fe: "filter isFetch es = [callOf queue i]" by simp
      from "1.IH"[OF a b step[symmetric] refl None rest] obtain m where
        m: "Suc i \<le> m" "m \<le> stopIndex stop (length queue) (Suc i)"
           "filter isFetch tr' = filter isFetch (tr @ es) @ map (callOf queue) [Suc i..<m]"
           "a = None \<longrightarrow> m = stopIndex stop (length queue) (Suc i)"
        by auto
      from m(1) have up: "[i..<m] = i # [Suc i..<m]"
        by (simp add: upt_conv_Cons)
      from m fe show ?thesis
        unfolding si by (intro exI[of _ m]) (simp add: up)
    next
      case (Some err)
      with True step "1.prems" have fin: "tr' = tr @ es" "a = Some err"
        by (auto simp: harvestLoop.simps[of queue asm cb stop i])
      from harvestTask_fetch[OF step] show ?thesis
      proof
        assume "filter isFetch es = [callOf queue i]"
        with fin lt show ?thesis
          unfolding si by (intro exI[of _ "Suc i"]) simp
      next
        assume "filter isFetch es = [] \<and> u \<noteq> None"
        with fin lt show ?thesis
          unfolding si by (intro exI[of _ i]) simp
      qed
    qed
  qed
qed

text \<open>The run reads the flag up to the first check at which it is set, and no further.\<close>

lemma harvestLoop_flag_cong:
  "(\<forall>j. i \<le> j \<and> j \<le> stopIndex stop (length queue) i \<longrightarrow> stop' j = stop j) \<Longrightarrow>
   harvestLoop queue asm cb stop' i sf tr = harvestLoop queue asm cb stop i sf tr"
proof (induction queue asm cb stop i sf tr rule: harvestLoop.induct)
  case (1 queue asm cb stop i sf tr)
  have here: "stop' i = stop i"
    using "1.prems" stopIndex_bounds[of i stop "length queue"] by simp
  show ?case
  proof (cases "i < length queue \<and> \<not> stop i")
    case False
    with here show ?thesis
      by (auto simp: harvestLoop.simps[of queue asm cb stop i] harvestLoop.simps[of queue asm cb stop' i])
  next
    case True
    obtain sf1 es u where step: "harvestTask queue asm cb i sf = (sf1, es, u)"
      by (metis prod_cases3)
    from True have si: "stopIndex stop (length queue) i = stopIndex stop (length queue) (Suc i)"
      by (simp add: stopIndex_step)
    from True have a: "i < length queue" and b: "\<not> stop i" by simp_all
    show ?thesis
    proof (cases u)
      case None
      have "harvestLoop queue asm cb stop' (i + 1) sf1 (tr @ es) = harvestLoop queue asm cb stop (i + 1) sf1 (tr @ es)"
        using "1.IH"[OF a b step[symmetric] refl None] "1.prems" si by simp
      with True here step None show ?thesis
        by (simp add: harvestLoop.simps[of queue asm cb stop i] harvestLoop.simps[of queue asm cb stop' i])
    next
      case (Some err)
      with True here step show ?thesis
        by (simp add: harvestLoop.simps[of queue asm cb stop i] harvestLoop.simps[of queue asm cb stop' i])
    qed
  qed
qed

text \<open>The run with a callback that returns at every call.\<close>

lemma harvestLoop_returns:
  "\<forall>i st l r. cb i st l r = None \<Longrightarrow>
     harvestLoop queue asm cb stop i sf tr = (sf', tr', a) \<Longrightarrow>
     fst sf = successCount queue asm i \<Longrightarrow> snd sf = failureCount queue asm i \<Longrightarrow>
     a = None
   \<and> fst sf' = successCount queue asm (stopIndex stop (length queue) i)
   \<and> snd sf' = failureCount queue asm (stopIndex stop (length queue) i)
   \<and> progressStats tr'
       = progressStats tr
         @ concat (map (\<lambda>j. [snapshot queue (successCount queue asm j) (failureCount queue asm j) (queue ! j),
                               snapshot queue (successCount queue asm (Suc j)) (failureCount queue asm (Suc j)) (queue ! j)])
                     [i..<stopIndex stop (length queue) i])
   \<and> length (filter isProgress tr') = length (filter isProgress tr) + 2 * (stopIndex stop (length queue) i - i)
   \<and> map isFetch (filter isCall tr')
       = map isFetch (filter isCall tr) @ concat (replicate (stopIndex stop (length queue) i - i) [False, True, False])"
proof (induction queue asm cb stop i sf tr rule: harvestLoop.induct)
  case (1 queue asm cb stop i sf tr)
  show ?case
  proof (cases "i < length queue \<and> \<not> stop i")
    case False
    with "1.prems"(2) have "sf' = sf" "tr' = tr" "a = None"
      by (auto simp: harvestLoop.simps[of queue asm cb stop i] split: if_splits)
    moreover from False have "stopIndex stop (length queue) i = i"
      by (cases "i < length queue") (simp_all add: stopIndex_step stopIndex_end)
    ultimately show ?thesis using "1.prems"(3,4) by simp
  next
    case True
    obtain s1 f1 es u where step: "harvestTask queue asm cb i (fst sf, snd sf) = ((s1, f1), es, u)"
      by (metis prod_cases3 surj_pair)
    then have step': "harvestTask queue asm cb i sf = ((s1, f1), es, u)" by simp
    note facts = harvestTask_returns[OF "1.prems"(1) step]
    from facts(1) have u: "u = None" .
    with True "1.prems"(2) step' have rest: "harvestLoop queue asm cb stop (i + 1) (s1, f1) (tr @ es) = (sf', tr', a)"
      by (simp add: harvestLoop.simps[of queue asm cb stop i])
    from True have si: "stopIndex stop (length queue) i = stopIndex stop (length queue) (Suc i)"
      by (simp add: stopIndex_step)
    have lt: "i < stopIndex stop (length queue) (Suc i)"
      using stopIndex_bounds[of "Suc i" stop "length queue"] by simp
    from True have a: "i < length queue" and b: "\<not> stop i" by simp_all
    have s1: "s1 = successCount queue asm (Suc i)"
      using facts(2) "1.prems"(3) by (simp add: successCount_Suc)
    have f1: "f1 = failureCount queue asm (Suc i)"
      using facts(3) "1.prems"(4) by (simp add: failureCount_Suc)
    have c1: "fst (s1, f1) = successCount queue asm (i + 1)" "snd (s1, f1) = failureCount queue asm (i + 1)"
      using s1 f1 by simp_all
    note IH = "1.IH"[OF a b step'[symmetric] refl u "1.prems"(1) rest c1]
    have up: "[i..<stopIndex stop (length queue) (Suc i)] = i # [Suc i..<stopIndex stop (length queue) (Suc i)]"
      using lt by (simp add: upt_conv_Cons)
    have rep: "replicate (stopIndex stop (length queue) (Suc i) - i) [False, True, False]
               = [False, True, False] # replicate (stopIndex stop (length queue) (Suc i) - Suc i) [False, True, False]"
      using lt by (metis Suc_diff_Suc replicate_Suc)
    have st: "progressStats es
        = [snapshot queue (successCount queue asm i) (failureCount queue asm i) (queue ! i),
           snapshot queue (successCount queue asm (Suc i)) (failureCount queue asm (Suc i)) (queue ! i)]"
      using facts(5) s1 f1 "1.prems"(3,4) by simp
    from IH facts(6,7) st lt show ?thesis
      unfolding si up rep by (simp add: progressStats_append)
  qed
qed


lemma processed_stopIndex: "processed queue stop = stopIndex stop (length queue) 0"
  by (simp add: processed_def stopIndex_def)

lemma harvest_run_begun:
  obtains m where "m \<le> processed queue stop"
    and "filter isFetch (effects (processPrefetchQueue queue asm cb stop)) = map (callOf queue) [0..<m]"
    and "rejected (processPrefetchQueue queue asm cb stop) = None \<longrightarrow> m = processed queue stop"
proof -
  obtain sf tr a where run: "harvestLoop queue asm cb stop 0 (0, 0) [] = (sf, tr, a)"
    by (metis prod_cases3)
  from harvestLoop_begun[OF run] obtain m where
    m: "m \<le> stopIndex stop (length queue) 0" "filter isFetch tr = map (callOf queue) [0..<m]"
       "a = None \<longrightarrow> m = stopIndex stop (length queue) 0"
    by auto
  from run have r: "effects (processPrefetchQueue queue asm cb stop) = tr"
    "rejected (processPrefetchQueue queue asm cb stop) = a"
    by (simp_all add: processPrefetchQueue_def split: prod.splits)
  show thesis
  proof (rule that[of m])
    show "m \<le> processed queue stop" using m(1) by (simp only: processed_stopIndex)
    show "filter isFetch (effects (processPrefetchQueue queue asm cb stop)) = map (callOf queue) [0..<m]"
      using m(2) by (simp only: r)
    show "rejected (processPrefetchQueue queue asm cb stop) = None \<longrightarrow> m = processed queue stop"
      using m(3) by (simp only: r processed_stopIndex)
  qed
qed

lemma harvest_run_returns:
  assumes "\<forall>i st l r. cb i st l r = None"
  shows "rejected (processPrefetchQueue queue asm cb stop) = None"
    and "finalSuccess (processPrefetchQueue queue asm cb stop) = successCount queue asm (processed queue stop)"
    and "finalFailed (processPrefetchQueue queue asm cb stop) = failureCount queue asm (processed queue stop)"
    and "progressStats (effects (processPrefetchQueue queue asm cb stop))
         = concat (map (\<lambda>j. [snapshot queue (successCount queue asm j) (failureCount queue asm j) (queue ! j),
                               snapshot queue (successCount queue asm (Suc j)) (failureCount queue asm (Suc j)) (queue ! j)])
                     [0..<processed queue stop])"
    and "length (filter isProgress (effects (processPrefetchQueue queue asm cb stop))) = 2 * processed queue stop"
    and "map isFetch (filter isCall (effects (processPrefetchQueue queue asm cb stop)))
         = concat (replicate (processed queue stop) [False, True, False])"
proof -
  obtain s f tr a where run: "harvestLoop queue asm cb stop 0 (0, 0) [] = ((s, f), tr, a)"
    by (metis prod_cases3 surj_pair)
  have start: "fst (0::nat, 0::nat) = successCount queue asm 0" "snd (0::nat, 0::nat) = failureCount queue asm 0"
    by (simp_all add: successCount_def failureCount_def)
  note inv = harvestLoop_returns[OF assms run start]
  from run have r: "processPrefetchQueue queue asm cb stop
      = \<lparr> finalSuccess = s, finalFailed = f, effects = tr, rejected = a \<rparr>"
    by (simp add: processPrefetchQueue_def)
  from inv show "rejected (processPrefetchQueue queue asm cb stop) = None"
    and "finalSuccess (processPrefetchQueue queue asm cb stop) = successCount queue asm (processed queue stop)"
    and "finalFailed (processPrefetchQueue queue asm cb stop) = failureCount queue asm (processed queue stop)"
    and "progressStats (effects (processPrefetchQueue queue asm cb stop))
         = concat (map (\<lambda>j. [snapshot queue (successCount queue asm j) (failureCount queue asm j) (queue ! j),
                               snapshot queue (successCount queue asm (Suc j)) (failureCount queue asm (Suc j)) (queue ! j)])
                     [0..<processed queue stop])"
    and "length (filter isProgress (effects (processPrefetchQueue queue asm cb stop))) = 2 * processed queue stop"
    and "map isFetch (filter isCall (effects (processPrefetchQueue queue asm cb stop)))
         = concat (replicate (processed queue stop) [False, True, False])"
    unfolding r processed_stopIndex by (simp_all add: progressStats_def)
qed

lemma processed_all: "(\<forall>i<length queue. \<not> stop i) \<Longrightarrow> processed queue stop = length queue"
proof -
  assume "\<forall>i<length queue. \<not> stop i"
  then have "\<forall>x\<in>set [0..<length queue]. \<not> stop x" by simp
  then have tw: "takeWhile (\<lambda>i. \<not> stop i) [0..<length queue] = [0..<length queue]"
    by (simp only: takeWhile_eq_all_conv)
  show ?thesis unfolding processed_def tw by simp
qed

lemma processed_at_flag:
  assumes "k < length queue" "\<forall>i<k. \<not> stop i" "stop k"
  shows "processed queue stop = k"
proof -
  define d where "d = length queue - Suc k"
  have d: "length queue = k + Suc d"
    using assms(1) by (simp add: d_def)
  have "[0..<k + Suc d] = [0..<k] @ [k..<k + Suc d]"
    by (rule upt_add_eq_append) (rule le0)
  also have "[k..<k + Suc d] = k # [Suc k..<k + Suc d]"
    by (rule upt_conv_Cons) simp
  finally have split: "[0..<k + Suc d] = [0..<k] @ k # [Suc k..<k + Suc d]" .
  have pre: "\<And>x. x \<in> set [0..<k] \<Longrightarrow> \<not> stop x"
    using assms(2) by (simp only: set_upt atLeastLessThan_iff) blast
  have "takeWhile (\<lambda>i. \<not> stop i) ([0..<k] @ k # [Suc k..<k + Suc d])
        = [0..<k] @ takeWhile (\<lambda>i. \<not> stop i) (k # [Suc k..<k + Suc d])"
    using pre by (rule takeWhile_append2)
  also have "takeWhile (\<lambda>i. \<not> stop i) (k # [Suc k..<k + Suc d]) = []"
    using assms(3) by (simp only: takeWhile.simps simp_thms if_False)
  finally have tw: "takeWhile (\<lambda>i. \<not> stop i) ([0..<k] @ k # [Suc k..<k + Suc d]) = [0..<k]"
    by (simp only: append_Nil2)
  show ?thesis unfolding processed_def d split tw by (simp only: length_upt diff_zero)
qed

lemma prefix_calls: "m \<le> k \<Longrightarrow> prefix (map (callOf queue) [0..<m]) (map (callOf queue) [0..<k])"
proof -
  assume "m \<le> k"
  then have "[0..<k] = [0..<m] @ [m..<k]"
    by (metis le_add_diff_inverse upt_add_eq_append le0)
  then show ?thesis by (simp add: prefix_def)
qed

lemma throwsOnResult_task:
  "asm i (url (queue ! i)) (taskId (queue ! i)) (level (queue ! i)) = Inr (Some p) \<Longrightarrow>
   harvestTask queue asm throwsOnResult i (s, f)
     = ((s + 1, f + 1),
        [OnProgress (snapshot queue s f (queue ! i)) (fetchingLog i queue (queue ! i)) None,
         FetchAoPS (url (queue ! i)) (taskId (queue ! i)) (level (queue ! i)),
         OnProgress (snapshot queue (s + 1) f (queue ! i)) (''SUCCESS: '' @ taskId (queue ! i)) (Some p),
         ConsoleError ''cannot render'',
         OnProgress (snapshot queue (s + 1) (f + 1) (queue ! i))
           (''ERROR: '' @ taskId (queue ! i) @ '' - '' @ ''cannot render'') None,
         Wait 800],
        None)"
  by (simp add: harvestTask_def tryBlock_def catchBlock_def throwsOnResult_def Let_def)

lemma twoTasks_length: "length twoTasks = 2"
  by (simp add: twoTasks_def addTask_def)

lemma twoTasks_processed: "processed twoTasks (\<lambda>i. False) = 2"
  using processed_all[of twoTasks "\<lambda>i. False"] by (simp add: twoTasks_length)

text \<open>
  Claim C7, as stated, fails. The calls of \<open>onProgress\<close> that report a result are made inside
  the \<open>try\<close> block, after the counter is incremented. A callback that throws there sends
  the task to the \<open>catch\<close> block as well, where \<open>failed\<close> is incremented and \<open>onProgress\<close> is
  called a third time: the task is counted twice. On a queue of two tasks that both
  succeed, with a callback that throws whenever it is handed a Problem, the run is not
  rejected and ends with success 2 and failed 2 for 2 tasks processed; the statistics
  handed to \<open>onProgress\<close> show the same counters.
\<close>

theorem throwing_callback_counterexample:
  "processed twoTasks (\<lambda>i. False) = 2
   \<and> rejected (processPrefetchQueue twoTasks alwaysSucceeds throwsOnResult (\<lambda>i. False)) = None
   \<and> finalSuccess (processPrefetchQueue twoTasks alwaysSucceeds throwsOnResult (\<lambda>i. False)) = 2
   \<and> finalFailed (processPrefetchQueue twoTasks alwaysSucceeds throwsOnResult (\<lambda>i. False)) = 2
   \<and> map (\<lambda>st. (success st, failed st))
        (progressStats (effects (processPrefetchQueue twoTasks alwaysSucceeds throwsOnResult (\<lambda>i. False))))
       = [(0, 0), (1, 0), (1, 1), (1, 1), (2, 1), (2, 2)]"
  by (simp add: twoTasks_processed twoTasks_length processPrefetchQueue_def harvestLoop.simps[of twoTasks]
      throwsOnResult_task alwaysSucceeds_def progressStats_def snapshot_def)

text \<open>
  Claim C7, amended. Provided \<open>onProgress\<close> returns at every call: the run is not rejected;
  every processed task is counted once, as a success (a Problem returned) or as a failure
  (null returned, or an error raised), so the success and failed counters are the numbers
  of such tasks and sum to the number of tasks processed; \<open>onProgress\<close> is called exactly
  twice per processed task, once before the Assembler call with the counters of the tasks
  before it and once after it with the counters that include it. A raised error never
  ends the run: when the stop flag is never seen set, every task of the queue is processed
  whatever the Assembler does.
\<close>

theorem harvester_counts:
  assumes "\<forall>i st l r. cb i st l r = None"
  shows "rejected (processPrefetchQueue queue asm cb stop) = None
   \<and> finalSuccess (processPrefetchQueue queue asm cb stop) + finalFailed (processPrefetchQueue queue asm cb stop)
     = processed queue stop
   \<and> finalSuccess (processPrefetchQueue queue asm cb stop)
     = length [j \<leftarrow> [0..<processed queue stop]. isSuccess (outcomeOf queue asm j)]
   \<and> finalFailed (processPrefetchQueue queue asm cb stop)
     = length [j \<leftarrow> [0..<processed queue stop]. \<not> isSuccess (outcomeOf queue asm j)]
   \<and> filter isFetch (effects (processPrefetchQueue queue asm cb stop))
     = map (callOf queue) [0..<processed queue stop]
   \<and> progressStats (effects (processPrefetchQueue queue asm cb stop))
     = concat (map (\<lambda>j. [snapshot queue (successCount queue asm j) (failureCount queue asm j) (queue ! j),
                           snapshot queue (successCount queue asm (Suc j)) (failureCount queue asm (Suc j)) (queue ! j)])
                 [0..<processed queue stop])
   \<and> (\<forall>j. successCount queue asm j + failureCount queue asm j = j)
   \<and> length (filter isProgress (effects (processPrefetchQueue queue asm cb stop))) = 2 * processed queue stop
   \<and> map isFetch (filter isCall (effects (processPrefetchQueue queue asm cb stop)))
     = concat (replicate (processed queue stop) [False, True, False])
   \<and> ((\<forall>i<length queue. \<not> stop i) \<longrightarrow> processed queue stop = length queue)"
proof -
  note run = harvest_run_returns[OF assms, of queue asm stop]
  obtain m where
    m: "m \<le> processed queue stop"
       "filter isFetch (effects (processPrefetchQueue queue asm cb stop)) = map (callOf queue) [0..<m]"
       "rejected (processPrefetchQueue queue asm cb stop) = None \<longrightarrow> m = processed queue stop"
    by (rule harvest_run_begun[of queue stop asm cb])
  from m(3) run(1) have "m = processed queue stop" by (rule mp)
  with m(2) have calls: "filter isFetch (effects (processPrefetchQueue queue asm cb stop))
     = map (callOf queue) [0..<processed queue stop]"
    by (simp only:)
  have total: "finalSuccess (processPrefetchQueue queue asm cb stop) + finalFailed (processPrefetchQueue queue asm cb stop)
     = processed queue stop"
    using run(2,3) count_sum[of queue asm "processed queue stop"] by simp
  have s: "finalSuccess (processPrefetchQueue queue asm cb stop)
     = length [j \<leftarrow> [0..<processed queue stop]. isSuccess (outcomeOf queue asm j)]"
    using run(2) by (simp only: successCount_def)
  have f: "finalFailed (processPrefetchQueue queue asm cb stop)
     = length [j \<leftarrow> [0..<processed queue stop]. \<not> isSuccess (outcomeOf queue asm j)]"
    using run(3) by (simp only: failureCount_def)
  have sums: "\<forall>j. successCount queue asm j + failureCount queue asm j = j"
    by (simp add: count_sum)
  have all: "(\<forall>i<length queue. \<not> stop i) \<longrightarrow> processed queue stop = length queue"
    using processed_all[of queue stop] by blast
  from run(1) total s f calls run(4) sums run(5) run(6) all show ?thesis
    by - (intro conjI; assumption)
qed

text \<open>
  Claim C8. If the stop flag is first seen set at the check that follows the \<open>k\<close>-th task
  (\<open>k\<close> smaller than the queue length), no task from the \<open>k\<close>-th check on is ever begun
  and, when the run is not rejected, exactly the first \<open>k\<close> tasks are begun; with a callback
  that returns at every call the run is not rejected and exactly \<open>k\<close> tasks are counted. The
  run does not depend on any later value of the flag.
\<close>

theorem harvester_stops_at_flag:
  assumes "k < length queue" "\<forall>i<k. \<not> stop i" "stop k"
  shows "prefix (filter isFetch (effects (processPrefetchQueue queue asm cb stop))) (map (callOf queue) [0..<k])
       \<and> (rejected (processPrefetchQueue queue asm cb stop) = None \<longrightarrow>
            filter isFetch (effects (processPrefetchQueue queue asm cb stop)) = map (callOf queue) [0..<k])
       \<and> ((\<forall>i st l r. cb i st l r = None) \<longrightarrow>
            rejected (processPrefetchQueue queue asm cb stop) = None
          \<and> finalSuccess (processPrefetchQueue queue asm cb stop) + finalFailed (processPrefetchQueue queue asm cb stop) = k
          \<and> length (filter isProgress (effects (processPrefetchQueue queue asm cb stop))) = 2 * k)
       \<and> (\<forall>stop'. (\<forall>i\<le>k. stop' i = stop i) \<longrightarrow>
             processPrefetchQueue queue asm cb stop' = processPrefetchQueue queue asm cb stop)"
proof -
  note k = processed_at_flag[OF assms]
  obtain m where
    m: "m \<le> k" "filter isFetch (effects (processPrefetchQueue queue asm cb stop)) = map (callOf queue) [0..<m]"
       "rejected (processPrefetchQueue queue asm cb stop) = None \<longrightarrow> m = k"
    by (rule harvest_run_begun[of queue stop asm cb, unfolded k])
  have begun: "prefix (filter isFetch (effects (processPrefetchQueue queue asm cb stop))) (map (callOf queue) [0..<k])"
    using m(1) unfolding m(2) by (rule prefix_calls)
  have exact: "rejected (processPrefetchQueue queue asm cb stop) = None \<longrightarrow>
            filter isFetch (effects (processPrefetchQueue queue asm cb stop)) = map (callOf queue) [0..<k]"
    using m(2,3) by (simp only:) simp
  have quiet: "(\<forall>i st l r. cb i st l r = None) \<longrightarrow>
            rejected (processPrefetchQueue queue asm cb stop) = None
          \<and> finalSuccess (processPrefetchQueue queue asm cb stop) + finalFailed (processPrefetchQueue queue asm cb stop) = k
          \<and> length (filter isProgress (effects (processPrefetchQueue queue asm cb stop))) = 2 * k"
  proof (intro impI)
    assume cb: "\<forall>i st l r. cb i st l r = None"
    note run = harvest_run_returns[OF cb, of queue asm stop, unfolded k]
    from run(2,3) count_sum[of queue asm k]
    have "finalSuccess (processPrefetchQueue queue asm cb stop) + finalFailed (processPrefetchQueue queue asm cb stop) = k"
      by simp
    with run(1) run(5)
    show "rejected (processPrefetchQueue queue asm cb stop) = None
          \<and> finalSuccess (processPrefetchQueue queue asm cb stop) + finalFailed (processPrefetchQueue queue asm cb stop) = k
          \<and> length (filter isProgress (effects (processPrefetchQueue queue asm cb stop))) = 2 * k"
      by - (intro conjI; assumption)
  qed
  have cong: "\<forall>stop'. (\<forall>i\<le>k. stop' i = stop i) \<longrightarrow>
             processPrefetchQueue queue asm cb stop' = processPrefetchQueue queue asm cb stop"
  proof (intro allI impI)
    fix stop'
    assume same: "\<forall>i\<le>k. stop' i = stop i"
    have "stopIndex stop (length queue) 0 = k"
      using k by (simp only: processed_stopIndex)
    with same have "\<forall>j. 0 \<le> j \<and> j \<le> stopIndex stop (length queue) 0 \<longrightarrow> stop' j = stop j"
      by simp
    then have "harvestLoop queue asm cb stop' 0 (0, 0) [] = harvestLoop queue asm cb stop 0 (0, 0) []"
      by (rule harvestLoop_flag_cong)
    then show "processPrefetchQueue queue asm cb stop' = processPrefetchQueue queue asm cb stop"
      by (simp only: processPrefetchQueue_def)
  qed
  from begun exact quiet cong show ?thesis
    by - (intro conjI; assumption)
qed

lemma demoQueue_length: "length demoQueue = 5"
  by (simp add: demoQueue_def addTask_def)

lemma upt_0_5: "[0..<5] = [0, 1, 2, 3, 4]"
  by code_simp

lemma upt_0_2: "[0..<2] = [0, 1]"
  by code_simp

lemma demo_success: "length [j \<leftarrow> [0..<5]. isSuccess (outcomeOf demoQueue thirdRaises j)] = 4"
  by (simp add: outcomeOf_def thirdRaises_def upt_0_5)

lemma demo_failed: "length [j \<leftarrow> [0..<5]. \<not> isSuccess (outcomeOf demoQueue thirdRaises j)] = 1"
  by (simp add: outcomeOf_def thirdRaises_def upt_0_5)

lemma demo_counts:
  "successCount demoQueue thirdRaises 0 = 0" "failureCount demoQueue thirdRaises 0 = 0"
  "successCount demoQueue thirdRaises (Suc 0) = 1" "failureCount demoQueue thirdRaises (Suc 0) = 0"
  "successCount demoQueue thirdRaises 2 = 2" "failureCount demoQueue thirdRaises 2 = 0"
  "successCount demoQueue thirdRaises (Suc (Suc 0)) = 2" "failureCount demoQueue thirdRaises (Suc (Suc 0)) = 0"
  "successCount demoQueue thirdRaises 3 = 2" "failureCount demoQueue thirdRaises 3 = 1"
  "successCount demoQueue thirdRaises 4 = 3" "failureCount demoQueue thirdRaises 4 = 1"
  "successCount demoQueue thirdRaises 5 = 4" "failureCount demoQueue thirdRaises 5 = 1"
  by (simp_all add: eval_nat_numeral successCount_Suc failureCount_Suc count_0 outcomeOf_def thirdRaises_def)

lemma returns_always: "\<forall>i st l r. returns i st l r = None"
  by (simp add: returns_def)

theorem harvester_counts_witness:
  "finalSuccess (processPrefetchQueue demoQueue thirdRaises returns (\<lambda>i. False)) = 4
   \<and> finalFailed (processPrefetchQueue demoQueue thirdRaises returns (\<lambda>i. False)) = 1
   \<and> rejected (processPrefetchQueue demoQueue thirdRaises returns (\<lambda>i. False)) = None
   \<and> length (filter isProgress (effects (processPrefetchQueue demoQueue thirdRaises returns (\<lambda>i. False)))) = 10
   \<and> map (\<lambda>st. (success st, failed st))
        (progressStats (effects (processPrefetchQueue demoQueue thirdRaises returns (\<lambda>i. False))))
       = [(0, 0), (1, 0), (1, 0), (2, 0), (2, 0), (2, 1), (2, 1), (3, 1), (3, 1), (4, 1)]
   \<and> processed demoQueue (\<lambda>i. False) = 5"
proof -
  note main = harvester_counts[of returns demoQueue thirdRaises "\<lambda>i. False", OF returns_always]
  from main have p: "processed demoQueue (\<lambda>i. False) = 5"
    by (simp add: demoQueue_length)
  from main have r: "rejected (processPrefetchQueue demoQueue thirdRaises returns (\<lambda>i. False)) = None"
    by (rule conjunct1)
  from main have s: "finalSuccess (processPrefetchQueue demoQueue thirdRaises returns (\<lambda>i. False)) = 4"
    by (simp only: p demo_success)
  from main have f: "finalFailed (processPrefetchQueue demoQueue thirdRaises returns (\<lambda>i. False)) = 1"
    by (simp only: p demo_failed)
  from main have n: "length (filter isProgress (effects (processPrefetchQueue demoQueue thirdRaises returns (\<lambda>i. False)))) = 2 * 5"
    by (simp only: p)
  from main have st: "progressStats (effects (processPrefetchQueue demoQueue thirdRaises returns (\<lambda>i. False)))
     = concat (map (\<lambda>j. [snapshot demoQueue (successCount demoQueue thirdRaises j) (failureCount demoQueue thirdRaises j) (demoQueue ! j),
                           snapshot demoQueue (successCount demoQueue thirdRaises (Suc j)) (failureCount demoQueue thirdRaises (Suc j)) (demoQueue ! j)])
                 [0, 1, 2, 3, 4])"
    by (simp only: p upt_0_5)
  have c: "map (\<lambda>st. (success st, failed st))
        (concat (map (\<lambda>j. [snapshot demoQueue (successCount demoQueue thirdRaises j) (failureCount demoQueue thirdRaises j) (demoQueue ! j),
                           snapshot demoQueue (successCount demoQueue thirdRaises (Suc j)) (failureCount demoQueue thirdRaises (Suc j)) (demoQueue ! j)])
                 [0, 1, 2, 3, 4]))
       = [(0, 0), (1, 0), (1, 0), (2, 0), (2, 0), (2, 1), (2, 1), (3, 1), (3, 1), (4, 1)]"
    by (simp add: snapshot_def demo_counts)
  from r s f n p show ?thesis
    by (simp only: st c) simp
qed

theorem harvester_stops_at_flag_witness:
  "filter isFetch (effects (processPrefetchQueue demoQueue thirdRaises returns (\<lambda>i. 2 \<le> i)))
     = [callOf demoQueue 0, callOf demoQueue 1]
   \<and> finalSuccess (processPrefetchQueue demoQueue thirdRaises returns (\<lambda>i. 2 \<le> i))
     + finalFailed (processPrefetchQueue demoQueue thirdRaises returns (\<lambda>i. 2 \<le> i)) = 2
   \<and> length (filter isProgress (effects (processPrefetchQueue demoQueue thirdRaises returns (\<lambda>i. 2 \<le> i)))) = 4
   \<and> processPrefetchQueue demoQueue thirdRaises returns (\<lambda>i. i = 2)
     = processPrefetchQueue demoQueue thirdRaises returns (\<lambda>i. 2 \<le> i)"
proof -
  have h: "2 < length demoQueue" "\<forall>i<2. \<not> (2::nat) \<le> i" "(2::nat) \<le> 2"
    by (simp_all add: demoQueue_length)
  note main = harvester_stops_at_flag[of 2 demoQueue "\<lambda>i. 2 \<le> i" thirdRaises returns, OF h]
  have same: "\<forall>i\<le>2. (i = (2::nat)) = (2 \<le> i)" by auto
  note later = main[THEN conjunct2, THEN conjunct2, THEN conjunct2, THEN spec, of "\<lambda>i. i = 2", THEN mp, OF same]
  note quiet = main[THEN conjunct2, THEN conjunct2, THEN conjunct1, THEN mp, OF returns_always]
  note exact = main[THEN conjunct2, THEN conjunct1, THEN mp, OF quiet[THEN conjunct1]]
  from exact have a: "filter isFetch (effects (processPrefetchQueue demoQueue thirdRaises returns (\<lambda>i. 2 \<le> i)))
     = [callOf demoQueue 0, callOf demoQueue 1]"
    by (simp only: upt_0_2 list.map)
  from quiet have b: "finalSuccess (processPrefetchQueue demoQueue thirdRaises returns (\<lambda>i. 2 \<le> i))
     + finalFailed (processPrefetchQueue demoQueue thirdRaises returns (\<lambda>i. 2 \<le> i)) = 2"
    by (rule conjunct2[THEN conjunct1])
  from quiet have c: "length (filter isProgress (effects (processPrefetchQueue demoQueue thirdRaises returns (\<lambda>i. 2 \<le> i)))) = 2 * 2"
    by (rule conjunct2[THEN conjunct2])
  from a b c later show ?thesis by simp
qed

section \<open>Proxy Fetcher\<close>

text \<open>
  Claim C10, as stated, fails: a fallback response whose JSON has a non-empty \<open>contents\<close>
  field is still rejected when its status is not successful.
\<close>

theorem fallback_status_counterexample:
  "fetchViaProxy (\<lambda>u. HttpResponse False 503 []) (\<lambda>u. BackupResponse False 500 (Contents (Some ''page''))) demoUrl 1
     = (Inl ''Backup Proxy Error: 500'', [''Both proxies failed''])"
  by (simp add: fetchViaProxy_def primaryAttempt_def backupAttempt_def) code_simp

text \<open>
  Claim C10, amended. A primary response is rejected when its status is not successful or
  its body is shorter than 100 characters: the result is then the fallback's (or the
  primary's error when no retry is left). A fallback response is accepted whenever its
  status is successful and its JSON \<open>contents\<close> field is non-empty, whatever its length; so
  some inputs make the function return a body shorter than 100 characters.
\<close>

theorem fallback_has_no_length_guard:
  "(primary target = HttpResponse ok status body \<and> (\<not> ok \<or> length body < 100) \<longrightarrow>
      (0 < retries \<longrightarrow> fst (fetchViaProxy primary backup target retries) = backupAttempt (backup target))
    \<and> (\<not> 0 < retries \<longrightarrow> (\<exists>e. fst (fetchViaProxy primary backup target retries) = Inl e)))
   \<and> (primary target = HttpResponse ok status body \<and> (\<not> ok \<or> length body < 100) \<and> 0 < retries
        \<and> backup target = BackupResponse True bstatus (Contents (Some c)) \<and> c \<noteq> [] \<longrightarrow>
      fetchViaProxy primary backup target retries = (Inr c, []))
   \<and> (\<exists>p b u r text. fetchViaProxy p b u r = (Inr text, []) \<and> length text < 100)"
proof (intro conjI impI)
  assume h: "primary target = HttpResponse ok status body \<and> (\<not> ok \<or> length body < 100)"
  then have rej: "\<exists>e. primaryAttempt (primary target) = Inl e"
    by (auto simp: primaryAttempt_def)
  { assume "0 < retries"
    with rej show "fst (fetchViaProxy primary backup target retries) = backupAttempt (backup target)"
      by (auto simp: fetchViaProxy_def split: sum.splits) }
  { assume "\<not> 0 < retries"
    with rej show "\<exists>e. fst (fetchViaProxy primary backup target retries) = Inl e"
      by (auto simp: fetchViaProxy_def split: sum.splits) }
next
  assume h: "primary target = HttpResponse ok status body \<and> (\<not> ok \<or> length body < 100) \<and> 0 < retries
        \<and> backup target = BackupResponse True bstatus (Contents (Some c)) \<and> c \<noteq> []"
  then have rej: "\<exists>e. primaryAttempt (primary target) = Inl e"
    by (auto simp: primaryAttempt_def)
  from h have "backupAttempt (backup target) = Inr c"
    by (simp add: backupAttempt_def)
  with rej h show "fetchViaProxy primary backup target retries = (Inr c, [])"
    by (auto simp: fetchViaProxy_def)
next
  have "fetchViaProxy (\<lambda>u. HttpResponse True 200 ''short'') (\<lambda>u. BackupResponse True 200 (Contents (Some ''page''))) [] 1
        = (Inr ''page'', [])"
    by (simp add: fetchViaProxy_def primaryAttempt_def backupAttempt_def)
  then show "\<exists>p b u r text. fetchViaProxy p b u r = (Inr text, []) \<and> length text < 100"
    by (intro exI[of _ "\<lambda>u. HttpResponse True 200 ''short''"] exI[of _ "\<lambda>u. BackupResponse True 200 (Contents (Some ''page''))"]
          exI[of _ "[]"] exI[of _ 1] exI[of _ "''page''"]) simp
qed

theorem fallback_has_no_length_guard_witness:
  "fst (fetchViaProxy (\<lambda>u. HttpResponse True 200 ''short'') (\<lambda>u. BackupResponse True 200 (Contents (Some ''page''))) demoUrl 1)
     = Inr ''page''
   \<and> fetchViaProxy (\<lambda>u. HttpResponse True 200 ''short'') (\<lambda>u. BackupResponse True 200 (Contents (Some ''page''))) demoUrl 1
     = (Inr ''page'', [])
   \<and> length ''page'' < (100::nat)"
proof -
  note main = fallback_has_no_length_guard[of "\<lambda>u. HttpResponse True 200 ''short''" demoUrl True 200 "''short''" 1
      "\<lambda>u. BackupResponse True 200 (Contents (Some ''page''))" 200 "''page''"]
  have h: "(\<lambda>u. HttpResponse True 200 ''short'') demoUrl = HttpResponse True 200 ''short'' \<and> (\<not> True \<or> length ''short'' < 100)"
    "(0::int) < 1" "(\<lambda>u. BackupResponse True 200 (Contents (Some ''page''))) demoUrl = BackupResponse True 200 (Contents (Some ''page''))"
    "''page'' \<noteq> []"
    by simp_all
  from main h show ?thesis by (simp add: backupAttempt_def)
qed

section \<open>Answer Extractor\<close>

lemma matchHere_no_cap:
  "matchHere ic rx s cap = Some (rest, cap') \<Longrightarrow> (\<forall>c. Cap c \<notin> set rx) \<Longrightarrow> cap' = cap"
  by (induction ic rx s cap rule: matchHere.induct) (auto split: if_splits option.splits)

lemma matchHere_cap:
  "matchHere ic rx s cap = Some (rest, cap') \<Longrightarrow> (\<exists>c. Cap c \<in> set rx) \<Longrightarrow>
   \<exists>x c. cap' = Some [x] \<and> Cap c \<in> set rx \<and> clsMatch ic c x"
proof (induction ic rx s cap rule: matchHere.induct)
  case (5 ic c r x xs cap)
  show ?case
  proof (cases "\<exists>c'. Cap c' \<in> set r")
    case True
    with 5 show ?thesis by (auto split: if_splits)
  next
    case False
    with 5 matchHere_no_cap[of ic r xs "Some [x]" rest cap'] show ?thesis
      by (auto split: if_splits)
  qed
qed (auto split: if_splits option.splits)

lemma search_cap:
  "search ic rx s = Some cap \<Longrightarrow> (\<exists>c. Cap c \<in> set rx) \<Longrightarrow>
   \<exists>x c. cap = Some [x] \<and> Cap c \<in> set rx \<and> clsMatch ic c x"
proof (induction s)
  case Nil
  then show ?case using matchHere_cap[of ic rx "[]" None] by (cases "matchHere ic rx [] None") auto
next
  case (Cons a s)
  then show ?case using matchHere_cap[of ic rx "a # s" None]
    by (cases "matchHere ic rx (a # s) None") auto
qed

lemma boxedMatch_letter:
  "boxedMatch html = Some m \<Longrightarrow> \<exists>x. m = Some [x] \<and> inChars True ''ABCDE'' x"
proof -
  assume a: "boxedMatch html = Some m"
  have c1: "\<exists>c. Cap c \<in> set boxedTextbfRx" and c2: "\<exists>c. Cap c \<in> set boxedRx"
    by (auto simp: boxedTextbfRx_def boxedRx_def)
  have only1: "Cap c \<in> set boxedTextbfRx \<Longrightarrow> c = Chars ''ABCDE''" for c
    by (auto simp: boxedTextbfRx_def lit_def)
  have only2: "Cap c \<in> set boxedRx \<Longrightarrow> c = Chars ''ABCDE''" for c
    by (auto simp: boxedRx_def lit_def)
  from a consider "search True boxedTextbfRx html = Some m" | "search True boxedRx html = Some m"
    by (auto simp: boxedMatch_def split: option.splits)
  then show ?thesis
  proof cases
    case 1
    from search_cap[OF 1 c1] only1 show ?thesis by fastforce
  next
    case 2
    from search_cap[OF 2 c2] only2 show ?thesis by fastforce
  qed
qed

lemma toUpperChar_table:
  "toUpperChar x = (if x \<in> set ''abcdefghijklmnopqrstuvwxyz''
     then the (map_of (zip ''abcdefghijklmnopqrstuvwxyz'' ''ABCDEFGHIJKLMNOPQRSTUVWXYZ'') x) else x)"
  by (auto simp: toUpperChar_def split: option.splits)

lemma toUpperChar_backslash: "(toUpperChar x = CHR 0x5C) = (x = CHR 0x5C)"
  by (auto simp: toUpperChar_def split: option.splits if_splits)

lemma inChars_AE: "inChars True ''ABCDE'' x = (x \<in> set ''ABCDEabcde'')"
  by (auto simp: inChars_def toUpperChar_def split: option.splits if_splits)

lemma toUpperChar_backslash_const: "toUpperChar (CHR 0x5C) = CHR 0x5C"
  by (simp add: toUpperChar_def)

lemma matchHere_needs_backslash:
  "x \<noteq> CHR 0x5C \<Longrightarrow> matchHere True (One (Chars [CHR 0x5C]) # r) (x # xs) cap = None"
  by (simp add: inChars_def toUpperChar_backslash toUpperChar_backslash_const)

lemma boxedTextbfRx_head: "boxedTextbfRx = One (Chars [CHR 0x5C]) # tl boxedTextbfRx"
  by (simp add: boxedTextbfRx_def lit_def)

lemma boxedRx_head: "boxedRx = One (Chars [CHR 0x5C]) # tl boxedRx"
  by (simp add: boxedRx_def lit_def)

lemma search_skip:
  assumes "rx = One (Chars [CHR 0x5C]) # r" "CHR 0x5C \<notin> set pre"
  shows "search True rx (pre @ s) = search True rx s"
  using assms(2)
proof (induction pre)
  case Nil
  then show ?case by simp
next
  case (Cons a pre)
  then have "matchHere True rx (a # pre @ s) None = None"
    unfolding assms(1) by (intro matchHere_needs_backslash) auto
  with Cons show ?case by simp
qed

lemma search_no_backslash:
  assumes "rx = One (Chars [CHR 0x5C]) # r" "CHR 0x5C \<notin> set s"
  shows "search True rx s = None"
proof -
  have "search True rx (s @ []) = search True rx []"
    using assms by (rule search_skip)
  then show ?thesis by (simp add: assms(1))
qed

lemma upper_chars:
  "toUpperChar (CHR 0x5C) = CHR 0x5C" "toUpperChar CHR ''b'' = CHR ''B''"
  "toUpperChar CHR ''o'' = CHR ''O''" "toUpperChar CHR ''x'' = CHR ''X''"
  "toUpperChar CHR ''e'' = CHR ''E''" "toUpperChar CHR ''d'' = CHR ''D''"
  "toUpperChar CHR ''t'' = CHR ''T''" "toUpperChar CHR ''f'' = CHR ''F''"
  "toUpperChar CHR ''{'' = CHR ''{''" "toUpperChar CHR ''}'' = CHR ''}''"
  "toUpperChar CHR ''('' = CHR ''(''" "toUpperChar CHR '')'' = CHR '')''"
  "toUpperChar CHR ''A'' = CHR ''A''" "toUpperChar CHR ''B'' = CHR ''B''"
  "toUpperChar CHR ''C'' = CHR ''C''" "toUpperChar CHR ''D'' = CHR ''D''"
  "toUpperChar CHR ''E'' = CHR ''E''"
  by (simp_all add: toUpperChar_def)

lemma AE_cases:
  "X \<in> set ''ABCDE'' \<Longrightarrow> (X = CHR ''A'' \<Longrightarrow> P) \<Longrightarrow> (X = CHR ''B'' \<Longrightarrow> P) \<Longrightarrow> (X = CHR ''C'' \<Longrightarrow> P)
   \<Longrightarrow> (X = CHR ''D'' \<Longrightarrow> P) \<Longrightarrow> (X = CHR ''E'' \<Longrightarrow> P) \<Longrightarrow> P"
  by auto

lemma match_boxedTextbf:
  "X \<in> set ''ABCDE'' \<Longrightarrow>
   matchHere True boxedTextbfRx (boxedTextbf X @ post) None = Some (post, Some [X])"
  by (erule AE_cases)
     (simp_all add: boxedTextbfRx_def boxedTextbf_def lit_def inChars_def isSpace_def upper_chars)

lemma match_boxedPlain:
  "X \<in> set ''ABCDE'' \<Longrightarrow>
   matchHere True boxedRx (boxedPlain X @ post) None = Some (post, Some [X])"
  by (erule AE_cases)
     (simp_all add: boxedRx_def boxedPlain_def lit_def inChars_def isSpace_def upper_chars)

lemma nomatch_textbf_on_plain:
  "matchHere True boxedTextbfRx (boxedPlain X @ post) None = None"
  by (simp add: boxedTextbfRx_def boxedPlain_def lit_def inChars_def isSpace_def upper_chars)

lemma search_boxedTextbf:
  assumes "X \<in> set ''ABCDE''" "CHR 0x5C \<notin> set pre"
  shows "search True boxedTextbfRx (pre @ boxedTextbf X @ post) = Some (Some [X])"
proof -
  have "search True boxedTextbfRx (pre @ boxedTextbf X @ post) = search True boxedTextbfRx (boxedTextbf X @ post)"
    using boxedTextbfRx_head assms(2) by (rule search_skip)
  also have "\<dots> = Some (Some [X])"
    using match_boxedTextbf[OF assms(1), of post] by (simp add: boxedTextbf_def)
  finally show ?thesis .
qed

lemma search_boxedPlain:
  assumes "X \<in> set ''ABCDE''" "CHR 0x5C \<notin> set pre"
  shows "search True boxedRx (pre @ boxedPlain X @ post) = Some (Some [X])"
proof -
  have "search True boxedRx (pre @ boxedPlain X @ post) = search True boxedRx (boxedPlain X @ post)"
    using boxedRx_head assms(2) by (rule search_skip)
  also have "\<dots> = Some (Some [X])"
    using match_boxedPlain[OF assms(1), of post] by (simp add: boxedPlain_def)
  finally show ?thesis .
qed

lemma search_textbf_on_plain:
  assumes "X \<in> set ''ABCDE''" "CHR 0x5C \<notin> set pre" "CHR 0x5C \<notin> set post"
  shows "search True boxedTextbfRx (pre @ boxedPlain X @ post) = None"
proof -
  have "search True boxedTextbfRx (pre @ boxedPlain X @ post) = search True boxedTextbfRx (boxedPlain X @ post)"
    using boxedTextbfRx_head assms(2) by (rule search_skip)
  also have "\<dots> = search True boxedTextbfRx (tl (boxedPlain X) @ post)"
    using nomatch_textbf_on_plain[of X post] by (simp add: boxedPlain_def)
  also have "\<dots> = None"
    using boxedTextbfRx_head
  proof (rule search_no_backslash)
    show "CHR 0x5C \<notin> set (tl (boxedPlain X) @ post)"
      using assms(1,3) by (auto simp: boxedPlain_def)
  qed
  finally show ?thesis .
qed

lemma regexAnswer_boxed:
  assumes "boxedMatch html = Some m"
  shows "regexAnswer html = group1 m" "extractCorrectOption ai html = Inr (group1 m)"
    "\<exists>x. group1 m = [x] \<and> x \<in> set ''ABCDEabcde''"
proof -
  from boxedMatch_letter[OF assms] obtain x where x: "m = Some [x]" "inChars True ''ABCDE'' x"
    by blast
  show a: "regexAnswer html = group1 m" using assms by (simp add: regexAnswer_def)
  from x show c: "\<exists>x. group1 m = [x] \<and> x \<in> set ''ABCDEabcde''"
    by (simp add: group1_def inChars_AE)
  from a c show "extractCorrectOption ai html = Inr (group1 m)"
    by (auto simp: extractCorrectOption_def)
qed

text \<open>
  Claim C3. When the solution markup has a boxed-answer match, the answer is the letter of
  that match, as written in the text: the prose pattern is never consulted and the AI is
  never asked. In particular, for markup whose first backslash starts
  \<open>\boxed{\textbf{(X)}}\<close>, or whose only backslash starts \<open>\boxed{(X)}\<close>, with \<open>X\<close> among A..E,
  the answer is \<open>X\<close> whatever prose stands before or after it.
\<close>

theorem boxed_answer_wins:
  "(boxedMatch html = Some m \<longrightarrow>
      regexAnswer html = group1 m \<and> extractCorrectOption ai html = Inr (group1 m)
      \<and> (\<exists>x. group1 m = [x] \<and> x \<in> set ''ABCDEabcde''))
   \<and> (X \<in> set ''ABCDE'' \<and> CHR 0x5C \<notin> set pre \<longrightarrow>
         extractCorrectOption ai (pre @ boxedTextbf X @ post) = Inr [X])
   \<and> (X \<in> set ''ABCDE'' \<and> CHR 0x5C \<notin> set pre \<and> CHR 0x5C \<notin> set post \<longrightarrow>
         extractCorrectOption ai (pre @ boxedPlain X @ post) = Inr [X])"
proof (intro conjI impI)
  assume "boxedMatch html = Some m"
  then show "regexAnswer html = group1 m" "extractCorrectOption ai html = Inr (group1 m)"
    "\<exists>x. group1 m = [x] \<and> x \<in> set ''ABCDEabcde''"
    by (rule regexAnswer_boxed)+
next
  assume h: "X \<in> set ''ABCDE'' \<and> CHR 0x5C \<notin> set pre"
  then have "boxedMatch (pre @ boxedTextbf X @ post) = Some (Some [X])"
    by (simp add: boxedMatch_def search_boxedTextbf)
  from regexAnswer_boxed(2)[OF this] show "extractCorrectOption ai (pre @ boxedTextbf X @ post) = Inr [X]"
    by (simp add: group1_def)
next
  assume h: "X \<in> set ''ABCDE'' \<and> CHR 0x5C \<notin> set pre \<and> CHR 0x5C \<notin> set post"
  then have "boxedMatch (pre @ boxedPlain X @ post) = Some (Some [X])"
    by (simp add: boxedMatch_def search_boxedPlain search_textbf_on_plain)
  from regexAnswer_boxed(2)[OF this] show "extractCorrectOption ai (pre @ boxedPlain X @ post) = Inr [X]"
    by (simp add: group1_def)
qed

lemma conflicting_prose: "search True answerIsRx (replaceAll False tagRx [] conflictingSolution) = Some (Some ''B'')"
  by code_simp

theorem boxed_answer_wins_witness:
  "boxedMatch conflictingSolution = Some (Some ''C'')
   \<and> search True answerIsRx (replaceAll False tagRx [] conflictingSolution) = Some (Some ''B'')
   \<and> regexAnswer conflictingSolution = ''C''
   \<and> extractCorrectOption None conflictingSolution = Inr ''C''
   \<and> extractCorrectOption None (''the answer is (B), or is it '' @ boxedPlain CHR ''D'' @ ''?'') = Inr ''D''"
proof -
  have bm: "boxedMatch conflictingSolution = Some (Some ''C'')"
    by code_simp
  note main = boxed_answer_wins[of conflictingSolution "Some ''C''" None "CHR ''D''"
      "''the answer is (B), or is it ''" "''?''"]
  from main bm have "regexAnswer conflictingSolution = group1 (Some ''C'')"
    "extractCorrectOption None conflictingSolution = Inr (group1 (Some ''C''))"
    by blast+
  moreover from main have "extractCorrectOption None (''the answer is (B), or is it '' @ boxedPlain CHR ''D'' @ ''?'') = Inr ''D''"
    by simp
  ultimately show ?thesis using bm conflicting_prose by (simp add: group1_def)
qed

text \<open>
  Claim C5 fails on the code. The patterns carry the flag \<open>i\<close> and the captured text is
  stored as matched, so a lower-case letter is stored as the answer: from prose such as
  "the answer is clearly 12", or from a boxed lower-case letter. The AI path upper-cases
  its reply; the pattern path does not. The third conjunct runs the whole Problem Assembler
  on a page whose solution reads "So the answer is clearly 2.": the Problem it returns has
  the answer "c".
\<close>

theorem lowercase_answer_stored:
  "extractCorrectOption ai ''<div><h3>Solution 1</h3><p>So the answer is clearly 12.</p></div>'' = Inr ''c''
   \<and> extractCorrectOption ai (''<div><p>Hence '' @ boxedPlain CHR ''d'' @ ''</p></div>'') = Inr ''d''
   \<and> map_option correctOption (fst (fetchAoPSProblem proseWorld demoUrl ''2025-amc8-1'' AMC8)) = Some ''c''"
proof -
  have "map_option correctOption (fst (fetchAoPSProblem proseWorld demoUrl ''2025-amc8-1'' AMC8)) = Some ''c''"
    by code_simp
  moreover
  have "regexAnswer ''<div><h3>Solution 1</h3><p>So the answer is clearly 12.</p></div>'' = ''c''"
    by code_simp
  moreover have "regexAnswer (''<div><p>Hence '' @ boxedPlain CHR ''d'' @ ''</p></div>'') = ''d''"
    by code_simp
  ultimately show ?thesis by (simp add: extractCorrectOption_def)
qed

section \<open>Document Segmenter and HTML Normalizer\<close>








lemma map_of_setAttr: "map_of (setAttr a k v) k' = (if k' = k then Some v else map_of a k')"
  by (induction a) auto

lemma setAttr_same: "map_of a k = Some v \<Longrightarrow> setAttr a k v = a"
  by (induction a) (auto split: if_splits)

lemma absoluteSrc_not_relative: "\<not> startsWith (absoluteSrc src) ''/''"
  by (auto simp: absoluteSrc_def startsWith_def)

lemma absoluteSrc_idem: "absoluteSrc (absoluteSrc src) = absoluteSrc src"
  using absoluteSrc_not_relative[of src]
  by (auto simp: absoluteSrc_def startsWith_def)

lemma absoluteSrc_nonempty: "src \<noteq> [] \<Longrightarrow> absoluteSrc src \<noteq> []"
  by (auto simp: absoluteSrc_def)

lemma restoreLatex_children:
  "restoreLatex (Element t a cs) = Element t a cs \<Longrightarrow> restoreLatex (Element t a cs') = Element t a cs'"
  by (auto simp: restoreLatex_def isLatexImage_def hasClass_def getAttribute_def
      split: if_splits option.splits)

lemma restoreLatex_cases:
  "restoreLatex (Element t a cs) = Element t a cs
   \<or> (\<exists>alt. restoreLatex (Element t a cs) = Element ''span'' [] [TextNode ('' '' @ alt @ '' '')])"
  by (auto simp: restoreLatex_def split: option.splits)

lemma restoreLatex_not_img: "t \<noteq> ''img'' \<Longrightarrow> restoreLatex (Element t a cs) = Element t a cs"
  by (simp add: restoreLatex_def isLatexImage_def)

lemma absolutizeImage_not_img: "t \<noteq> ''img'' \<Longrightarrow> absolutizeImage (Element t a cs) = Element t a cs"
  by (simp add: absolutizeImage_def)

lemma absolutizeLink_not_a: "t \<noteq> ''a'' \<Longrightarrow> absolutizeLink (Element t a cs) = Element t a cs"
  by (simp add: absolutizeLink_def)

lemma stable_span: "stable (Element ''span'' [] [TextNode s])"
  by (simp add: restoreLatex_not_img absolutizeImage_not_img absolutizeLink_not_a)

lemma stable_fixed:
  "stable n \<Longrightarrow> mapTree restoreLatex n = n \<and> mapTree absolutizeImage n = n \<and> mapTree absolutizeLink n = n"
proof (induction n)
  case (Element t a cs)
  then have "map (mapTree restoreLatex) cs = cs" "map (mapTree absolutizeImage) cs = cs"
    "map (mapTree absolutizeLink) cs = cs"
    by (simp_all add: map_idI)
  with Element.prems show ?case by simp
next
  case (TextNode s)
  then show ?case by simp
qed

text \<open>What an image and a link look like after their rewrite.\<close>

lemma absolutizeImage_img:
  "absolutizeImage (Element ''img'' a cs) = Element ''img'' a' cs \<Longrightarrow>
     absolutizeImage (Element ''img'' a' cs') = Element ''img'' a' cs'
   \<and> map_of a' ''class'' = map_of a ''class'' \<and> map_of a' ''alt'' = map_of a ''alt''"
  by (auto simp: absolutizeImage_def getAttribute_def map_of_setAttr setAttr_same
      absoluteSrc_idem absoluteSrc_nonempty split: option.splits if_splits)

lemma absolutizeImage_shape:
  "absolutizeImage (Element t a cs) = Element t (attributes (absolutizeImage (Element t a []))) cs"
  by (simp add: absolutizeImage_def getAttribute_def split: option.splits)

lemma absolutizeLink_shape:
  "absolutizeLink (Element t a cs) = Element t (attributes (absolutizeLink (Element t a []))) cs"
  by (simp add: absolutizeLink_def getAttribute_def split: option.splits)

lemma absolutizeLink_a:
  "absolutizeLink (Element ''a'' a cs) = Element ''a'' a' cs \<Longrightarrow>
     absolutizeLink (Element ''a'' a' cs') = Element ''a'' a' cs'"
  by (auto simp: absolutizeLink_def getAttribute_def map_of_setAttr startsWith_def
      split: option.splits if_splits)

lemma restoreLatex_attrs:
  "map_of a' ''class'' = map_of a ''class'' \<Longrightarrow> map_of a' ''alt'' = map_of a ''alt'' \<Longrightarrow>
   restoreLatex (Element t a cs) = Element t a cs \<Longrightarrow> restoreLatex (Element t a' cs') = Element t a' cs'"
  by (auto simp: restoreLatex_def isLatexImage_def hasClass_def getAttribute_def
      split: if_splits option.splits)

lemma normalizeBody_map: "normalizeBody body = map normalizeNode body"
  by (simp add: normalizeBody_def normalizeNode_def)

lemma normalizeNode_stable: "stable (normalizeNode n)"
proof (induction n)
  case (TextNode s)
  then show ?case by (simp add: normalizeNode_def)
next
  case (Element t a cs)
  let ?cs1 = "map (mapTree restoreLatex) cs"
  let ?cs3 = "map normalizeNode cs"
  have kids: "\<forall>c \<in> set ?cs3. stable c" using Element.IH by simp
  from restoreLatex_cases[of t a ?cs1] show ?case
  proof
    assume keep: "restoreLatex (Element t a ?cs1) = Element t a ?cs1"
    define a2 where "a2 = attributes (absolutizeImage (Element t a []))"
    define a3 where "a3 = attributes (absolutizeLink (Element t a2 []))"
    have i2: "absolutizeImage (Element t a xs) = Element t a2 xs" for xs
      unfolding a2_def by (rule absolutizeImage_shape)
    have i3: "absolutizeLink (Element t a2 xs) = Element t a3 xs" for xs
      unfolding a3_def by (rule absolutizeLink_shape)
    have nn: "normalizeNode (Element t a cs) = Element t a3 ?cs3"
      using keep by (simp add: normalizeNode_def i2 i3 comp_def)
    have f1: "restoreLatex (Element t a3 ?cs3) = Element t a3 ?cs3"
    proof (cases "t = ''img''")
      case False
      then show ?thesis by (rule restoreLatex_not_img)
    next
      case True
      with i3[of "[]"] have a32: "a3 = a2" by (simp add: absolutizeLink_not_a)
      from True i2[of "[]"] have "absolutizeImage (Element ''img'' a []) = Element ''img'' a2 []" by simp
      from absolutizeImage_img[OF this]
      have "map_of a2 ''class'' = map_of a ''class''" "map_of a2 ''alt'' = map_of a ''alt''" by simp_all
      from restoreLatex_attrs[OF this keep] a32 show ?thesis by simp
    qed
    have f2: "absolutizeImage (Element t a3 ?cs3) = Element t a3 ?cs3"
    proof (cases "t = ''img''")
      case False
      then show ?thesis by (rule absolutizeImage_not_img)
    next
      case True
      with i3[of "[]"] have a32: "a3 = a2" by (simp add: absolutizeLink_not_a)
      from True i2[of "[]"] have "absolutizeImage (Element ''img'' a []) = Element ''img'' a2 []" by simp
      from absolutizeImage_img[OF this, of ?cs3] True a32 show ?thesis by simp
    qed
    have f3: "absolutizeLink (Element t a3 ?cs3) = Element t a3 ?cs3"
    proof (cases "t = ''a''")
      case False
      then show ?thesis by (rule absolutizeLink_not_a)
    next
      case True
      from True i3[of "[]"] have "absolutizeLink (Element ''a'' a2 []) = Element ''a'' a3 []" by simp
      from absolutizeLink_a[OF this, of ?cs3] True show ?thesis by simp
    qed
    from f1 f2 f3 kids show ?thesis unfolding nn by simp
  next
    assume "\<exists>alt. restoreLatex (Element t a ?cs1) = Element ''span'' [] [TextNode ('' '' @ alt @ '' '')]"
    then obtain alt where r: "restoreLatex (Element t a ?cs1) = Element ''span'' [] [TextNode ('' '' @ alt @ '' '')]"
      by blast
    have "normalizeNode (Element t a cs) = Element ''span'' [] [TextNode ('' '' @ alt @ '' '')]"
      by (simp add: normalizeNode_def r absolutizeImage_not_img absolutizeLink_not_a)
    then show ?thesis by (simp only: stable_span)
  qed
qed

lemma normalizeNode_idem: "normalizeNode (normalizeNode n) = normalizeNode n"
  using stable_fixed[OF normalizeNode_stable[of n]]
  by (simp add: normalizeNode_def)

lemma normalizeBody_idem: "normalizeBody (normalizeBody body) = normalizeBody body"
  by (simp add: normalizeBody_map normalizeNode_idem)

lemma normalizeBody_div: "normalizeBody [Element ''div'' [] cs] = [Element ''div'' [] (normalizeBody cs)]"
  by (simp add: normalizeBody_def restoreLatex_not_img absolutizeImage_not_img absolutizeLink_not_a)

lemma cleanAndRestoreLatex_html:
  "normHtml (cleanAndRestoreLatex parse rawHtml)
     = innerHTML (normalizeBody (bodyNodes (parse (''<div>'' @ rawHtml @ ''</div>''))))"
  by (simp add: cleanAndRestoreLatex_def normalizeBody_def Let_def comp_assoc)

lemma innerHTML_div: "innerHTML [Element ''div'' [] cs] = ''<div>'' @ innerHTML cs @ ''</div>''"
  by (simp add: innerHTML_def outerHTML_def voidElements_def rawTextElements_def)

text \<open>
  Claim C6, as stated, fails. The function wraps its input in a \<open>div\<close> before parsing and
  returns the markup of the whole body, wrapper included, so every application adds one
  \<open>div\<close> around the content: already for the empty fragment (which has no image and no
  link) the second output differs from the first. The parser is the browser's, tabulated
  on the two documents that are parsed.
\<close>

theorem normalizer_wrapper_counterexample:
  "normHtml (cleanAndRestoreLatex emptyFragmentParser []) = ''<div></div>''
   \<and> normHtml (cleanAndRestoreLatex emptyFragmentParser
                (normHtml (cleanAndRestoreLatex emptyFragmentParser [])))
       = ''<div><div></div></div>''"
  by code_simp

text \<open>
  Claim C6, amended. Whenever the parser reads the first output, wrapped in a \<open>div\<close>, back
  as the body it was serialised from, a second application yields the first output wrapped
  in one more \<open>div\<close> element; the content inside is unchanged. This holds for every
  fragment, in particular for those whose image sources and link targets are already
  absolute.
\<close>

theorem normalizer_twice_wraps_once:
  "bodyNodes (parse (''<div>'' @ normHtml (cleanAndRestoreLatex parse rawHtml) @ ''</div>''))
     = [Element ''div'' [] (normalizeBody (bodyNodes (parse (''<div>'' @ rawHtml @ ''</div>''))))]
   \<Longrightarrow> normHtml (cleanAndRestoreLatex parse (normHtml (cleanAndRestoreLatex parse rawHtml)))
         = ''<div>'' @ normHtml (cleanAndRestoreLatex parse rawHtml) @ ''</div>''
     \<and> normHtml (cleanAndRestoreLatex parse (normHtml (cleanAndRestoreLatex parse rawHtml)))
         \<noteq> normHtml (cleanAndRestoreLatex parse rawHtml)"
proof -
  let ?first = "normHtml (cleanAndRestoreLatex parse rawHtml)"
  let ?G = "normalizeBody (bodyNodes (parse (''<div>'' @ rawHtml @ ''</div>'')))"
  assume rt: "bodyNodes (parse (''<div>'' @ ?first @ ''</div>'')) = [Element ''div'' [] ?G]"
  have first: "?first = innerHTML ?G" by (rule cleanAndRestoreLatex_html)
  have "normHtml (cleanAndRestoreLatex parse ?first) = innerHTML (normalizeBody [Element ''div'' [] ?G])"
    by (simp only: cleanAndRestoreLatex_html[of parse ?first] rt)
  also have "\<dots> = innerHTML [Element ''div'' [] ?G]"
    by (simp only: normalizeBody_div normalizeBody_idem)
  also have "\<dots> = ''<div>'' @ ?first @ ''</div>''"
    by (simp only: innerHTML_div first)
  finally have eq: "normHtml (cleanAndRestoreLatex parse ?first) = ''<div>'' @ ?first @ ''</div>''" .
  have "length (''<div>'' @ ?first @ ''</div>'') \<noteq> length ?first" by simp
  then have "''<div>'' @ ?first @ ''</div>'' \<noteq> ?first" by (metis (no_types))
  with eq show ?thesis by simp
qed

theorem normalizer_twice_wraps_once_witness:
  "normHtml (cleanAndRestoreLatex absoluteFragmentParser absoluteFragment)
     = ''<div>'' @ absoluteFragment @ ''</div>''
   \<and> normHtml (cleanAndRestoreLatex absoluteFragmentParser
        (normHtml (cleanAndRestoreLatex absoluteFragmentParser absoluteFragment)))
     = ''<div><div>'' @ absoluteFragment @ ''</div></div>''
   \<and> normHtml (cleanAndRestoreLatex absoluteFragmentParser
        (normHtml (cleanAndRestoreLatex absoluteFragmentParser absoluteFragment)))
     \<noteq> normHtml (cleanAndRestoreLatex absoluteFragmentParser absoluteFragment)"
proof -
  have first: "normHtml (cleanAndRestoreLatex absoluteFragmentParser absoluteFragment)
     = ''<div>'' @ absoluteFragment @ ''</div>''"
    by code_simp
  have rt: "bodyNodes (absoluteFragmentParser (''<div>'' @ normHtml (cleanAndRestoreLatex absoluteFragmentParser absoluteFragment) @ ''</div>''))
     = [Element ''div'' [] (normalizeBody (bodyNodes (absoluteFragmentParser (''<div>'' @ absoluteFragment @ ''</div>''))))]"
    by code_simp
  note main = normalizer_twice_wraps_once[of absoluteFragmentParser absoluteFragment, OF rt]
  from main first show ?thesis by simp
qed

section \<open>Problem Assembler\<close>

lemma assembleProblem_cases:
  "(\<exists>e logs. assembleProblem w target pid = (Inl e, logs))
   \<or> (\<exists>q imgs c sh.
         assembleProblem w target pid
           = (Inr \<lparr> problemId = pid, source = AOPS, originalUrl = Some target, questionHtml = q,
                    images = imgs, options = [''A'', ''B'', ''C'', ''D'', ''E''], correctOption = c,
                    solutionHtml = sh, difficulty = 5, userAnswer = None, isCorrect = None,
                    hints = [], solutionChat = [], topic = None \<rparr>, []))"
proof -
  have logs: "fetchViaProxy p b target 1 = (Inr page, logs) \<Longrightarrow> logs = []" for p b page logs
    by (auto simp: fetchViaProxy_def split: sum.splits if_splits)
  show ?thesis
  proof (cases "fetchViaProxy (primaryProxy w) (backupProxy w) target 1")
    case (Pair r logs)
    show ?thesis
    proof (cases r)
      case (Inl e)
      with Pair show ?thesis by (simp add: assembleProblem_def)
    next
      case (Inr page)
      with Pair logs have l: "logs = []" by blast
      from Pair Inr l show ?thesis
        by (auto simp: assembleProblem_def Let_def split: sum.splits prod.splits)
    qed
  qed
qed

text \<open>
  Claim C1. The Assembler returns either no Problem, with its warning logged last, or a
  Problem whose every field is set (the optional session fields absent) and no warning;
  it has no other outcome, so it never raises. A failure of the fetch, of the
  segmentation (no content root, no question content) or of the answer extraction (the AI
  client cannot be built) gives no Problem and the warning.
\<close>

theorem assembler_all_or_nothing:
  "((\<exists>e logs. fetchAoPSProblem w target pid lvl = (None, logs @ [scrapingWarning target e]))
    \<or> (\<exists>q imgs c sh.
         fetchAoPSProblem w target pid lvl
           = (Some \<lparr> problemId = pid, source = AOPS, originalUrl = Some target, questionHtml = q,
                     images = imgs, options = [''A'', ''B'', ''C'', ''D'', ''E''], correctOption = c,
                     solutionHtml = sh, difficulty = 5, userAnswer = None, isCorrect = None,
                     hints = [], solutionChat = [], topic = None \<rparr>, [])))
   \<and> (fetchViaProxy (primaryProxy w) (backupProxy w) target 1 = (Inl e, logs) \<longrightarrow>
        fetchAoPSProblem w target pid lvl = (None, logs @ [scrapingWarning target e]))
   \<and> (fetchViaProxy (primaryProxy w) (backupProxy w) target 1 = (Inr page, logs)
        \<and> segmentDocument (domParser w page) = Inl e \<longrightarrow>
        fetchAoPSProblem w target pid lvl = (None, logs @ [scrapingWarning target e]))
   \<and> (fetchViaProxy (primaryProxy w) (backupProxy w) target 1 = (Inr page, logs)
        \<and> segmentDocument (domParser w page) = Inr (qa, sa)
        \<and> extractCorrectOption (aiClient w)
             (normHtml (cleanAndRestoreLatex (domParser w)
                (if sa = [] then ''<p>Solution parsing failed.</p>'' else sa))) = Inl e \<longrightarrow>
        fetchAoPSProblem w target pid lvl = (None, logs @ [scrapingWarning target e]))"
proof (intro conjI impI)
  from assembleProblem_cases[of w target pid]
  show "(\<exists>e logs. fetchAoPSProblem w target pid lvl = (None, logs @ [scrapingWarning target e]))
    \<or> (\<exists>q imgs c sh.
         fetchAoPSProblem w target pid lvl
           = (Some \<lparr> problemId = pid, source = AOPS, originalUrl = Some target, questionHtml = q,
                     images = imgs, options = [''A'', ''B'', ''C'', ''D'', ''E''], correctOption = c,
                     solutionHtml = sh, difficulty = 5, userAnswer = None, isCorrect = None,
                     hints = [], solutionChat = [], topic = None \<rparr>, []))"
  proof
    assume "\<exists>e logs. assembleProblem w target pid = (Inl e, logs)"
    then obtain e logs where "assembleProblem w target pid = (Inl e, logs)" by blast
    then have "fetchAoPSProblem w target pid lvl = (None, logs @ [scrapingWarning target e])"
      by (simp add: fetchAoPSProblem_def)
    then show ?thesis by blast
  next
    assume "\<exists>q imgs c sh. assembleProblem w target pid
           = (Inr \<lparr> problemId = pid, source = AOPS, originalUrl = Some target, questionHtml = q,
                    images = imgs, options = [''A'', ''B'', ''C'', ''D'', ''E''], correctOption = c,
                    solutionHtml = sh, difficulty = 5, userAnswer = None, isCorrect = None,
                    hints = [], solutionChat = [], topic = None \<rparr>, [])"
    then obtain q imgs c sh where "assembleProblem w target pid
           = (Inr \<lparr> problemId = pid, source = AOPS, originalUrl = Some target, questionHtml = q,
                    images = imgs, options = [''A'', ''B'', ''C'', ''D'', ''E''], correctOption = c,
                    solutionHtml = sh, difficulty = 5, userAnswer = None, isCorrect = None,
                    hints = [], solutionChat = [], topic = None \<rparr>, [])" by blast
    then have "fetchAoPSProblem w target pid lvl
           = (Some \<lparr> problemId = pid, source = AOPS, originalUrl = Some target, questionHtml = q,
                     images = imgs, options = [''A'', ''B'', ''C'', ''D'', ''E''], correctOption = c,
                     solutionHtml = sh, difficulty = 5, userAnswer = None, isCorrect = None,
                     hints = [], solutionChat = [], topic = None \<rparr>, [])"
      by (simp add: fetchAoPSProblem_def)
    then show ?thesis by blast
  qed
next
  assume "fetchViaProxy (primaryProxy w) (backupProxy w) target 1 = (Inl e, logs)"
  then show "fetchAoPSProblem w target pid lvl = (None, logs @ [scrapingWarning target e])"
    by (simp add: fetchAoPSProblem_def assembleProblem_def)
next
  assume "fetchViaProxy (primaryProxy w) (backupProxy w) target 1 = (Inr page, logs)
        \<and> segmentDocument (domParser w page) = Inl e"
  then show "fetchAoPSProblem w target pid lvl = (None, logs @ [scrapingWarning target e])"
    by (simp add: fetchAoPSProblem_def assembleProblem_def)
next
  assume "fetchViaProxy (primaryProxy w) (backupProxy w) target 1 = (Inr page, logs)
        \<and> segmentDocument (domParser w page) = Inr (qa, sa)
        \<and> extractCorrectOption (aiClient w)
             (normHtml (cleanAndRestoreLatex (domParser w)
                (if sa = [] then ''<p>Solution parsing failed.</p>'' else sa))) = Inl e"
  then show "fetchAoPSProblem w target pid lvl = (None, logs @ [scrapingWarning target e])"
    by (simp add: fetchAoPSProblem_def assembleProblem_def Let_def)
qed

lemma demoWorld_run:
  "fetchAoPSProblem demoWorld demoUrl ''2025-amc8-1'' AMC8
     = (Some \<lparr> problemId = ''2025-amc8-1'', source = AOPS, originalUrl = Some demoUrl,
                questionHtml = ''<div><p>What is 1+1?</p></div>'', images = [],
                options = [''A'', ''B'', ''C'', ''D'', ''E''], correctOption = ''B'',
                solutionHtml = ''<div>'' @ demoSolutionMarkup @ ''</div>'',
                difficulty = 5, userAnswer = None, isCorrect = None,
                hints = [], solutionChat = [], topic = None \<rparr>, [])"
  by code_simp

lemma offlineWorld_fetch:
  "fetchViaProxy (primaryProxy offlineWorld) (backupProxy offlineWorld) demoUrl 1
     = (Inl ''Failed to fetch'', [''Both proxies failed''])"
  by code_simp

lemma blankWorld_segment:
  "fetchViaProxy (primaryProxy blankWorld) (backupProxy blankWorld) demoUrl 1 = (Inr ''<p>Not found</p>'', [])
   \<and> segmentDocument (domParser blankWorld ''<p>Not found</p>'') = Inl ''Could not find content (.mw-parser-output)''"
  by code_simp

lemma noKeyWorld_extract:
  "fetchViaProxy (primaryProxy noKeyWorld) (backupProxy noKeyWorld) demoUrl 1 = (Inr (innerHTML plainPage), [])
   \<and> segmentDocument (domParser noKeyWorld (innerHTML plainPage))
       = Inr (''<p>What is 1+1?</p>'', solutionSubHeading demoSolutionHeading @ outerHTML plainSolutionParagraph)
   \<and> extractCorrectOption (aiClient noKeyWorld)
         (normHtml (cleanAndRestoreLatex (domParser noKeyWorld)
            (if solutionSubHeading demoSolutionHeading @ outerHTML plainSolutionParagraph = []
             then ''<p>Solution parsing failed.</p>''
             else solutionSubHeading demoSolutionHeading @ outerHTML plainSolutionParagraph)))
       = Inl ''API Key not found in environment''"
  by code_simp

theorem assembler_all_or_nothing_witness:
  "fetchAoPSProblem offlineWorld demoUrl ''2025-amc8-1'' AMC8
     = (None, [''Both proxies failed'', scrapingWarning demoUrl ''Failed to fetch''])
   \<and> fetchAoPSProblem blankWorld demoUrl ''2025-amc8-1'' AMC8
     = (None, [scrapingWarning demoUrl ''Could not find content (.mw-parser-output)''])
   \<and> fetchAoPSProblem noKeyWorld demoUrl ''2025-amc8-1'' AMC8
     = (None, [scrapingWarning demoUrl ''API Key not found in environment''])
   \<and> fetchAoPSProblem demoWorld demoUrl ''2025-amc8-1'' AMC8
     = (Some \<lparr> problemId = ''2025-amc8-1'', source = AOPS, originalUrl = Some demoUrl,
                questionHtml = ''<div><p>What is 1+1?</p></div>'', images = [],
                options = [''A'', ''B'', ''C'', ''D'', ''E''], correctOption = ''B'',
                solutionHtml = ''<div>'' @ demoSolutionMarkup @ ''</div>'',
                difficulty = 5, userAnswer = None, isCorrect = None,
                hints = [], solutionChat = [], topic = None \<rparr>, [])"
proof -
  note a = assembler_all_or_nothing[of offlineWorld demoUrl "''2025-amc8-1''" AMC8 "''Failed to fetch''"
      "[''Both proxies failed'']", THEN conjunct2, THEN conjunct1, rule_format, OF offlineWorld_fetch]
  note b = assembler_all_or_nothing[of blankWorld demoUrl "''2025-amc8-1''" AMC8
      "''Could not find content (.mw-parser-output)''" "[]" "''<p>Not found</p>''",
      THEN conjunct2, THEN conjunct2, THEN conjunct1, rule_format, OF blankWorld_segment]
  note c = assembler_all_or_nothing[of noKeyWorld demoUrl "''2025-amc8-1''" AMC8
      "''API Key not found in environment''" "[]" "innerHTML plainPage" "''<p>What is 1+1?</p>''"
      "solutionSubHeading demoSolutionHeading @ outerHTML plainSolutionParagraph",
      THEN conjunct2, THEN conjunct2, THEN conjunct2, rule_format, OF noKeyWorld_extract]
  from a b c demoWorld_run show ?thesis by simp
qed

section \<open>Lenient JSON extraction\<close>

lemma matchHere_suffix:
  "matchHere ic rx s cap = Some (rest, cap') \<Longrightarrow> suffix rest s"
proof (induction ic rx s cap rule: matchHere.induct)
  case (3 ic c r x xs cap)
  then show ?case by (auto split: if_splits intro: suffix_ConsI)
next
  case (5 ic c r x xs cap)
  then show ?case by (auto split: if_splits intro: suffix_ConsI)
next
  case (7 ic c r x xs cap)
  then show ?case by (auto split: if_splits option.splits intro: suffix_ConsI)
next
  case (9 ic c r x xs cap)
  then show ?case by (auto split: if_splits option.splits intro: suffix_ConsI)
next
  case (11 ic c r x xs cap)
  then show ?case by (auto split: if_splits intro: suffix_ConsI)
qed (auto split: if_splits)

lemma replaceAll_delete_subset: "set (replaceAll ic rx [] s) \<subseteq> set s"
proof (induction ic rx "[] :: string" s rule: replaceAll.induct)
  case (1 ic rx)
  then show ?case by (simp split: option.splits)
next
  case (2 ic rx x xs)
  show ?case
  proof (cases "matchHere ic rx (x # xs) None")
    case None
    with 2 show ?thesis by auto
  next
    case (Some m)
    obtain rest cap where m: "m = (rest, cap)" by (cases m)
    from Some m have "suffix rest (x # xs)"
      by (intro matchHere_suffix[of ic rx "x # xs" None rest cap]) simp
    then have sub: "set rest \<subseteq> set (x # xs)" by (rule set_mono_suffix)
    show ?thesis
    proof (cases "length (fst m) < length (x # xs)")
      case True
      with 2(2)[OF Some True] Some m sub show ?thesis by auto
    next
      case False
      with 2(3)[OF Some False] Some m show ?thesis by auto
    qed
  qed
qed

lemma fence_regexes: "startsWithFence fenceJsonRx" "startsWithFence fenceEndRx" "startsWithFence fenceRx"
  by (simp_all add: startsWithFence_def fenceJsonRx_def fenceEndRx_def fenceRx_def lit_def)

lemma toUpperChar_backtick: "(toUpperChar x = CHR 0x60) = (x = CHR 0x60)"
  by (auto simp: toUpperChar_def split: option.splits if_splits)

lemma inChars_backtick: "inChars ic ''`'' x = (x = CHR 0x60)"
  using toUpperChar_backtick[of x] toUpperChar_backtick[of "CHR 0x60"]
  by (auto simp: inChars_def)

lemma fence_match_prefix:
  assumes "startsWithFence rx" "matchHere ic rx s cap = Some m"
  shows "prefix ''```'' s"
proof -
  from assms(1) obtain r where rx: "rx = One (Chars ''`'') # One (Chars ''`'') # One (Chars ''`'') # r"
    by (auto simp: startsWithFence_def)
  show ?thesis
  proof (cases s)
    case Nil
    with assms(2) rx show ?thesis by simp
  next
    case s1: (Cons a sa)
    show ?thesis
    proof (cases sa)
      case Nil
      with assms(2) rx s1 show ?thesis by (simp add: inChars_backtick split: if_splits)
    next
      case s2: (Cons b sb)
      show ?thesis
      proof (cases sb)
        case Nil
        with assms(2) rx s1 s2 show ?thesis by (simp add: inChars_backtick split: if_splits)
      next
        case (Cons c sc)
        with assms(2) rx s1 s2 show ?thesis by (simp add: inChars_backtick split: if_splits)
      qed
    qed
  qed
qed

lemma no_fence_prefix:
  assumes "\<not> strIncludes j ''```''" "j \<noteq> []" "last j \<noteq> CHR 0x60"
  shows "\<not> prefix ''```'' (j @ rest)"
proof (cases j)
  case Nil
  with assms(2) show ?thesis by simp
next
  case j1: (Cons a ja)
  show ?thesis
  proof (cases ja)
    case Nil
    with assms(3) j1 show ?thesis by simp
  next
    case j2: (Cons b jb)
    show ?thesis
    proof (cases jb)
      case Nil
      with assms(3) j1 j2 show ?thesis by simp
    next
      case (Cons c jc)
      with assms(1) j1 j2 show ?thesis by auto
    qed
  qed
qed

lemma replaceAll_keep:
  assumes "startsWithFence rx"
  shows "\<not> strIncludes j ''```'' \<Longrightarrow> j \<noteq> [] \<Longrightarrow> last j \<noteq> CHR 0x60 \<Longrightarrow>
         replaceAll ic rx rep (j @ rest) = j @ replaceAll ic rx rep rest"
proof (induction j)
  case Nil
  then show ?case by simp
next
  case (Cons x j)
  have nomatch: "matchHere ic rx (x # j @ rest) None = None"
  proof (cases "matchHere ic rx (x # j @ rest) None")
    case None
    then show ?thesis .
  next
    case (Some m)
    from fence_match_prefix[OF assms Some] have "prefix ''```'' ((x # j) @ rest)"
      by (simp only: append_Cons)
    with no_fence_prefix[OF Cons.prems, of rest] show ?thesis by blast
  qed
  show ?case
  proof (cases "j = []")
    case True
    with nomatch show ?thesis by simp
  next
    case False
    with Cons.prems have "\<not> strIncludes j ''```''" "last j \<noteq> CHR 0x60" by auto
    from Cons.IH[OF this(1) False this(2)] nomatch show ?thesis by simp
  qed
qed

lemma star_space_run:
  "\<forall>w \<in> set ws. isSpace w \<Longrightarrow> s = [] \<or> \<not> isSpace (hd s) \<Longrightarrow>
   matchHere ic [Star Space] (ws @ s) cap = Some (s, cap)"
proof (induction ws)
  case Nil
  then show ?case by (cases s) auto
next
  case (Cons w ws)
  then show ?case by simp
qed

lemma opening_fence:
  assumes "\<forall>w \<in> set ws. isSpace w" "s = [] \<or> \<not> isSpace (hd s)"
  shows "matchHere True fenceJsonRx (''```json'' @ ws @ s) None = Some (s, None)"
proof -
  have up: "toUpperChar CHR ''j'' = CHR ''J''" "toUpperChar CHR ''s'' = CHR ''S''"
    "toUpperChar CHR ''o'' = CHR ''O''" "toUpperChar CHR ''n'' = CHR ''N''"
    "toUpperChar (CHR 0x60) = CHR 0x60"
    by (simp_all add: toUpperChar_def)
  from star_space_run[OF assms, of True None] show ?thesis
    by (simp add: fenceJsonRx_def lit_def inChars_def up)
qed

lemma lastIndexOf_notin: "c \<notin> set s \<Longrightarrow> lastIndexOf s c = None"
  by (induction s) auto

lemma lastIndexOf_append_notin:
  "c \<notin> set ys \<Longrightarrow> lastIndexOf (xs @ ys) c = lastIndexOf xs c"
  by (induction xs) (auto simp: lastIndexOf_notin)

lemma lastIndexOf_last: "j \<noteq> [] \<Longrightarrow> last j = c \<Longrightarrow> lastIndexOf j c = Some (length j - 1)"
proof (induction j)
  case Nil
  then show ?case by simp
next
  case (Cons x j)
  show ?case
  proof (cases "j = []")
    case True
    with Cons.prems show ?thesis by simp
  next
    case False
    with Cons have "lastIndexOf j c = Some (length j - 1)" by simp
    with False show ?thesis by (cases j) auto
  qed
qed

lemma trim_keeps_core:
  assumes "j \<noteq> []" "\<not> isSpace (hd j)" "\<not> isSpace (last j)"
  shows "\<exists>y. trim (j @ x) = j @ y \<and> set y \<subseteq> set x"
proof -
  from assms(1) obtain a ja where ja: "j = a # ja" by (cases j) simp_all
  with assms(2) have dfront: "dropWhile isSpace (j @ x) = j @ x" by simp
  from assms(1) obtain b r where br: "rev j = b # r" by (cases "rev j") simp_all
  then have "hd (rev j) = b" by simp
  with assms(1) have "last j = b" by (simp only: hd_rev)
  with assms(3) br have dback: "dropWhile isSpace (rev j) = rev j" by simp
  show ?thesis
  proof (cases "\<forall>c \<in> set (rev x). isSpace c")
    case True
    then have c: "(\<forall>c \<in> set (rev x). isSpace c) = True" by (simp only: simp_thms)
    have "dropWhile isSpace (rev x @ rev j) = rev j"
      by (simp only: dropWhile_append c if_True dback)
    then have "trim (j @ x) = j @ []" by (simp only: trim_def dfront rev_append rev_rev_ident append_Nil2)
    then show ?thesis by (intro exI[of _ "[]"]) simp
  next
    case False
    then have c: "(\<forall>c \<in> set (rev x). isSpace c) = False" by (simp only: simp_thms)
    have "dropWhile isSpace (rev x @ rev j) = dropWhile isSpace (rev x) @ rev j"
      by (simp only: dropWhile_append c if_False)
    then have t: "trim (j @ x) = j @ rev (dropWhile isSpace (rev x))"
      by (simp only: trim_def dfront rev_append rev_rev_ident)
    have "set (dropWhile isSpace (rev x)) \<subseteq> set (rev x)"
      by (rule subsetI) (rule set_dropWhileD)
    then have "set (rev (dropWhile isSpace (rev x))) \<subseteq> set x" by simp
    with t show ?thesis by (intro exI[of _ "rev (dropWhile isSpace (rev x))"]) simp
  qed
qed

lemma brace_not_space: "\<not> isSpace CHR ''{''" "\<not> isSpace CHR ''}''"
  by (simp_all add: isSpace_def)

lemma stripFences_fenced:
  assumes j: "hd j = CHR ''{''" "last j = CHR ''}''" "j \<noteq> []" "\<not> strIncludes j ''```''"
    and ws: "\<forall>w \<in> set ws1. isSpace w" "\<forall>w \<in> set ws2. isSpace w"
    and tail: "CHR ''}'' \<notin> set tail"
  shows "\<exists>y. stripFences (fenced ws1 j ws2 tail) = j @ y \<and> CHR ''}'' \<notin> set y"
proof -
  let ?rest = "ws2 @ ''```'' @ tail"
  have lb: "last j \<noteq> CHR 0x60" using j(2) by simp
  have open_ok: "j @ ?rest = [] \<or> \<not> isSpace (hd (j @ ?rest))"
    using j(1,3) brace_not_space by simp
  have m: "matchHere True fenceJsonRx (''```json'' @ ws1 @ (j @ ?rest)) None = Some (j @ ?rest, None)"
    using ws(1) open_ok by (rule opening_fence)
  have s1: "replaceAll True fenceJsonRx [] (fenced ws1 j ws2 tail)
            = j @ replaceAll True fenceJsonRx [] ?rest"
  proof -
    have "replaceAll True fenceJsonRx [] (fenced ws1 j ws2 tail)
          = replaceAll True fenceJsonRx [] (j @ ?rest)"
      using m by (simp add: fenced_def)
    also have "\<dots> = j @ replaceAll True fenceJsonRx [] ?rest"
      using fence_regexes(1) j(4) j(3) lb by (rule replaceAll_keep)
    finally show ?thesis .
  qed
  define x1 where "x1 = replaceAll True fenceJsonRx [] ?rest"
  define x2 where "x2 = replaceAll False fenceEndRx [] x1"
  define x3 where "x3 = replaceAll False fenceRx [] x2"
  have s2: "replaceAll False fenceEndRx [] (j @ x1) = j @ x2"
    unfolding x2_def using fence_regexes(2) j(4) j(3) lb by (rule replaceAll_keep)
  have s3: "replaceAll False fenceRx [] (j @ x2) = j @ x3"
    unfolding x3_def using fence_regexes(3) j(4) j(3) lb by (rule replaceAll_keep)
  have sf: "stripFences (fenced ws1 j ws2 tail) = trim (j @ x3)"
    by (simp only: stripFences_def s1 x1_def[symmetric] s2 s3)
  have "CHR ''}'' \<notin> set ?rest"
    using ws(2) tail brace_not_space(2) by auto
  moreover have "set x3 \<subseteq> set ?rest"
    unfolding x3_def x2_def x1_def
    using replaceAll_delete_subset[of False fenceRx] replaceAll_delete_subset[of False fenceEndRx]
      replaceAll_delete_subset[of True fenceJsonRx ?rest]
    by (meson subset_trans)
  ultimately have nb: "CHR ''}'' \<notin> set x3" by blast
  from trim_keeps_core[of j x3] j brace_not_space obtain y where
    y: "trim (j @ x3) = j @ y" "set y \<subseteq> set x3" by auto
  with nb sf show ?thesis by auto
qed

lemma extractJsonText_fenced:
  assumes j: "hd j = CHR ''{''" "last j = CHR ''}''" "j \<noteq> []" "\<not> strIncludes j ''```''"
    and ws: "\<forall>w \<in> set ws1. isSpace w" "\<forall>w \<in> set ws2. isSpace w"
    and tail: "CHR ''}'' \<notin> set tail"
  shows "extractJsonText (fenced ws1 j ws2 tail) = j"
proof -
  from stripFences_fenced[OF assms] obtain y where
    y: "stripFences (fenced ws1 j ws2 tail) = j @ y" "CHR ''}'' \<notin> set y" by blast
  from j(1,3) obtain body where jb: "j = CHR ''{'' # body" by (cases j) auto
  have first: "indexOf (j @ y) CHR ''{'' = Some 0" by (simp add: jb)
  have last: "lastIndexOf (j @ y) CHR ''}'' = Some (length j - 1)"
    using y(2) j(2,3) by (simp add: lastIndexOf_append_notin lastIndexOf_last)
  have len: "Suc (length j - Suc 0) = length j" using j(3) by (cases j) auto
  show ?thesis
    unfolding extractJsonText_def y(1) Let_def first last
    by (simp add: substring_def len)
qed

text \<open>
  Claim C9, as stated, fails in its first half: the code-fence markers are removed
  everywhere, also inside the strings of the JSON object, so the object that is parsed is
  not the one between the fences.
\<close>

theorem fence_inside_json_counterexample:
  "backtickJson backtickObject = Some (JObject [(''a'', JString ''```'')])
   \<and> parseJsonFromResponse backtickJson
        (Some (fenced [CHR 0x0A] backtickObject [CHR 0x0A] (CHR 0x0A # ''Done.'')))
       = Some (JObject [(''a'', JString [])])"
  by code_simp

text \<open>
  Claim C9, amended. For a response text made of an opening fence, a JSON object whose
  text contains no code-fence marker, a closing fence and a trailing text without a
  closing brace, the function returns what \<open>JSON.parse\<close> gives for the object. For every
  input the function returns a value: the absent result for an undefined or empty text, and
  the absent result when neither the direct parse nor the parse of the repaired text
  succeeds.
\<close>

theorem fenced_json_recovered:
  "(hd j = CHR ''{'' \<and> last j = CHR ''}'' \<and> j \<noteq> [] \<and> \<not> strIncludes j ''```''
      \<and> (\<forall>w \<in> set ws1. isSpace w) \<and> (\<forall>w \<in> set ws2. isSpace w)
      \<and> CHR ''}'' \<notin> set tail \<and> jsonParse j = Some v \<longrightarrow>
      parseJsonFromResponse jsonParse (Some (fenced ws1 j ws2 tail)) = Some v)
   \<and> parseJsonFromResponse jsonParse None = None
   \<and> parseJsonFromResponse jsonParse (Some []) = None
   \<and> (jsonParse (extractJsonText t) = None \<and> jsonParse (repairBackslashes (extractJsonText t)) = None \<longrightarrow>
        parseJsonFromResponse jsonParse (Some t) = None)"
proof (intro conjI impI)
  assume h: "hd j = CHR ''{'' \<and> last j = CHR ''}'' \<and> j \<noteq> [] \<and> \<not> strIncludes j ''```''
      \<and> (\<forall>w \<in> set ws1. isSpace w) \<and> (\<forall>w \<in> set ws2. isSpace w)
      \<and> CHR ''}'' \<notin> set tail \<and> jsonParse j = Some v"
  then have "extractJsonText (fenced ws1 j ws2 tail) = j"
    by (intro extractJsonText_fenced) simp_all
  moreover have "fenced ws1 j ws2 tail \<noteq> []" by (simp add: fenced_def)
  ultimately show "parseJsonFromResponse jsonParse (Some (fenced ws1 j ws2 tail)) = Some v"
    using h by (simp add: parseJsonFromResponse_def)
next
  show "parseJsonFromResponse jsonParse None = None" by (simp add: parseJsonFromResponse_def)
next
  show "parseJsonFromResponse jsonParse (Some []) = None" by (simp add: parseJsonFromResponse_def)
next
  assume "jsonParse (extractJsonText t) = None \<and> jsonParse (repairBackslashes (extractJsonText t)) = None"
  then show "parseJsonFromResponse jsonParse (Some t) = None"
    by (simp add: parseJsonFromResponse_def)
qed

theorem fenced_json_recovered_witness:
  "parseJsonFromResponse listJson
     (Some (fenced [CHR 0x0A] listObject [CHR 0x0A] (CHR 0x0A # ''Here is the explanation.'')))
     = Some (JObject [(''x'', JArray [JNumber 1, JNumber 2])])
   \<and> parseJsonFromResponse listJson (Some ''no object here'') = None"
proof -
  have h: "hd listObject = CHR ''{'' \<and> last listObject = CHR ''}'' \<and> listObject \<noteq> []
      \<and> \<not> strIncludes listObject ''```''
      \<and> (\<forall>w \<in> set [CHR 0x0A]. isSpace w) \<and> (\<forall>w \<in> set [CHR 0x0A]. isSpace w)
      \<and> CHR ''}'' \<notin> set (CHR 0x0A # ''Here is the explanation.'')
      \<and> listJson listObject = Some (JObject [(''x'', JArray [JNumber 1, JNumber 2])])"
    by code_simp
  have n: "listJson (extractJsonText ''no object here'') = None
      \<and> listJson (repairBackslashes (extractJsonText ''no object here'')) = None"
    by code_simp
  note main = fenced_json_recovered[of listObject "[CHR 0x0A]" "[CHR 0x0A]"
      "CHR 0x0A # ''Here is the explanation.''" listJson "JObject [(''x'', JArray [JNumber 1, JNumber 2])]"
      "''no object here''"]
  from main[THEN conjunct1, rule_format, OF h]
       main[THEN conjunct2, THEN conjunct2, THEN conjunct2, rule_format, OF n]
  show ?thesis by simp
qed

end
